theory Spec2Isabelle
  imports Main "HOL-Library.Sublist"
begin

section \<open>Errors and gRPC status values\<close>

text \<open>
  The gRPC status codes, in the order of package \<open>codes\<close>, and the name each one prints
  as.
\<close>

datatype code =
    OK | Canceled | Unknown | InvalidArgument | DeadlineExceeded | NotFound
  | AlreadyExists | PermissionDenied | ResourceExhausted | FailedPrecondition
  | Aborted | OutOfRange | Unimplemented | Internal | Unavailable | DataLoss
  | Unauthenticated

fun code_String :: "code \<Rightarrow> string" where
  "code_String OK = ''OK''"
| "code_String Canceled = ''Canceled''"
| "code_String Unknown = ''Unknown''"
| "code_String InvalidArgument = ''InvalidArgument''"
| "code_String DeadlineExceeded = ''DeadlineExceeded''"
| "code_String NotFound = ''NotFound''"
| "code_String AlreadyExists = ''AlreadyExists''"
| "code_String PermissionDenied = ''PermissionDenied''"
| "code_String ResourceExhausted = ''ResourceExhausted''"
| "code_String FailedPrecondition = ''FailedPrecondition''"
| "code_String Aborted = ''Aborted''"
| "code_String OutOfRange = ''OutOfRange''"
| "code_String Unimplemented = ''Unimplemented''"
| "code_String Internal = ''Internal''"
| "code_String Unavailable = ''Unavailable''"
| "code_String DataLoss = ''DataLoss''"
| "code_String Unauthenticated = ''Unauthenticated''"

text \<open>
  A non-nil Go \<open>error\<close>. The sentinels \<open>io.EOF\<close>, \<open>context.Canceled\<close> and
  \<open>context.DeadlineExceeded\<close> are constructors of their own, because the code compares
  against them with \<open>==\<close>; a status error carries its code and description; every other
  error is known by its message text only. The type \<open>err\<close> adds \<open>nil\<close> as \<open>None\<close>.
\<close>

datatype error =
    io_EOF
  | context_Canceled
  | context_DeadlineExceeded
  | Status code string
  | Other string

type_synonym err = "error option"

text \<open>The method \<open>Error()\<close>: the message text of an error.\<close>

fun Error :: "error \<Rightarrow> string" where
  "Error io_EOF = ''EOF''"
| "Error context_Canceled = ''context canceled''"
| "Error context_DeadlineExceeded = ''context deadline exceeded''"
| "Error (Status c desc) = ''rpc error: code = '' @ code_String c @ '' desc = '' @ desc"
| "Error (Other text) = text"

text \<open>\<open>strings.HasSuffix\<close>.\<close>

definition HasSuffix :: "string \<Rightarrow> string \<Rightarrow> bool" where
  "HasSuffix s sfx \<longleftrightarrow>
     length s \<ge> length sfx \<and> drop (length s - length sfx) s = sfx"

text \<open>\<open>status.Error\<close>: the code \<open>OK\<close> gives \<open>nil\<close>.\<close>

definition status_Error :: "code \<Rightarrow> string \<Rightarrow> err" where
  "status_Error c desc = (if c = OK then None else Some (Status c desc))"

definition errStartedTwice :: err where
  "errStartedTwice = status_Error InvalidArgument ''consumption already started''"

definition errInvalidConfirm :: err where
  "errInvalidConfirm = status_Error InvalidArgument ''invalid confirmation''"

definition errNotConnected :: err where
  "errNotConnected = status_Error InvalidArgument ''not connected to a topic''"

definition errInvalidRequest :: err where
  "errInvalidRequest = status_Error InvalidArgument
     ''invalid consumer request - this is possibly a bug in your client library''"

section \<open>Messages of the wire protocol\<close>

text \<open>
  The generated package \<open>proto\<close> is a dependency of the server. Its enum \<open>Offset\<close> and
  its messages \<open>Confirmation\<close> and \<open>Message\<close> are never inspected by \<open>Consume\<close>, so they
  are the type parameters \<open>'o\<close>, \<open>'c\<close> and \<open>'m\<close>. A \<open>ConsumerRequest\<close> has two optional
  sub-messages, read through the getters \<open>GetStartRequest\<close> and \<open>GetConfirmation\<close>
  (\<open>None\<close> is \<open>nil\<close>).
\<close>

record 'o StartConsumeRequest =
  GetTopic :: string
  GetConsumer :: string
  GetInitialOffset :: 'o

record ('o, 'c) ConsumerRequest =
  GetStartRequest :: "'o StartConsumeRequest option"
  GetConfirmation :: "'c option"

record 'o consumerConfig =
  consumer :: string
  topic :: string
  offset :: 'o

section \<open>The three tasks of \<open>Consume\<close>\<close>

text \<open>
  Each task is a small control-flow graph; a task is at one of its blocking points or
  has returned. Reader (lines 45 to 82): in \<open>stream.Recv()\<close>, in the select that offers
  a start request, in the select that offers a confirmation, or returned.
\<close>

datatype ('o, 'c) reader_pc =
    R_Recv
  | R_SendStart "'o StartConsumeRequest"
  | R_SendConfirm 'c
  | R_Done err

text \<open>Lines 49 to 57: what the reader returns when \<open>Recv\<close> fails with \<open>e\<close>.\<close>

definition recv_failed :: "error \<Rightarrow> err" where
  "recv_failed e =
     (if e = io_EOF then None
      else if HasSuffix (Error e) ''context canceled'' then None
      else Some e)"

text \<open>
  Lines 58 to 80: the switch on a received request, from the flag \<open>started\<close> to the new
  flag and the next point of the reader.
\<close>

definition dispatch ::
  "bool \<Rightarrow> ('o, 'c) ConsumerRequest \<Rightarrow> bool \<times> ('o, 'c) reader_pc" where
  "dispatch started msg =
     (case GetStartRequest msg of
        Some sr \<Rightarrow>
          if started then (started, R_Done errStartedTwice)
          else (True, R_SendStart sr)
      | None \<Rightarrow>
          (case GetConfirmation msg of
             Some c \<Rightarrow>
               if \<not> started then (started, R_Done errInvalidConfirm)
               else (started, R_SendConfirm c)
           | None \<Rightarrow> (started, R_Done errInvalidRequest)))"

text \<open>
  Writer (lines 84 to 99): in its select, in \<open>stream.Send(m)\<close>, or returned. Lines 89
  to 94 are what it returns when \<open>Send\<close> fails with \<open>e\<close>.
\<close>

datatype 'm writer_pc =
    W_Select
  | W_Send 'm
  | W_Done err

definition send_failed :: "error \<Rightarrow> err" where
  "send_failed e =
     (if HasSuffix (Error e) ''context canceled'' then None else Some e)"

text \<open>
  Handler invoker (lines 101 to 113): in its select, inside \<open>HandleConsume\<close>, or
  returned. The arguments of the call at line 112 are recorded by name: which context,
  the configuration, and which channel is passed in which position.
\<close>

datatype context_name = StreamCtx | GroupCtx

datatype chan_name = ForClient | ConfirmRequest | StartRequest

record 'o HandleConsume_call =
  arg_ctx :: context_name
  arg_conf :: "'o consumerConfig"
  arg_forClient :: chan_name
  arg_confirmRequest :: chan_name

definition conf_of :: "'o StartConsumeRequest \<Rightarrow> 'o consumerConfig" where
  "conf_of sr =
     \<lparr>consumer = GetConsumer sr, topic = GetTopic sr, offset = GetInitialOffset sr\<rparr>"

definition call_of :: "'o StartConsumeRequest \<Rightarrow> 'o HandleConsume_call" where
  "call_of sr =
     \<lparr>arg_ctx = GroupCtx, arg_conf = conf_of sr,
      arg_forClient = ForClient, arg_confirmRequest = ConfirmRequest\<rparr>"

datatype 'o invoker_pc =
    I_Select
  | I_Handler "'o HandleConsume_call"
  | I_Done err

text \<open>
  The body of \<open>Consume\<close> itself: in \<open>g.Wait()\<close>, at the test of line 119, at the return
  of line 122, or returned.
\<close>

datatype main_pc =
    M_Wait
  | M_Check
  | M_Return
  | M_Done err

section \<open>The session state\<close>

text \<open>
  Besides the four control points and the reader's flag, the state holds the group
  (its recorded error and whether its \<open>sync.Once\<close> has fired), whether \<open>ctx.Done()\<close> is
  closed, the value of \<open>sCtx.Err()\<close>, and the history of the session: the requests
  \<open>Recv\<close> has returned, the calls of \<open>HandleConsume\<close>, the confirmations the handler
  has taken from \<open>confirmRequest\<close>, the messages the writer has taken from \<open>forClient\<close>,
  and the finished calls of \<open>stream.Send\<close> with their results.
\<close>

record ('o, 'c, 'm) state =
  reader :: "('o, 'c) reader_pc"
  started :: bool
  writer :: "'m writer_pc"
  invoker :: "'o invoker_pc"
  main :: main_pc
  g_err :: err
  g_once :: bool
  ctx_done :: bool
  sctx_err :: err
  received :: "('o, 'c) ConsumerRequest list"
  calls :: "'o HandleConsume_call list"
  confirms :: "'c list"
  produced :: "'m list"
  sends :: "('m \<times> err) list"

definition init :: "('o, 'c, 'm) state" where
  "init =
     \<lparr>reader = R_Recv, started = False, writer = W_Select, invoker = I_Select,
      main = M_Wait, g_err = None, g_once = False, ctx_done = False, sctx_err = None,
      received = [], calls = [], confirms = [], produced = [], sends = []\<rparr>"

text \<open>
  The group comes from the package \<open>gogroup\<close>, a dependency whose source is not part of
  the repository, so its policy is a parameter of the model. Under \<open>FirstReturn\<close> the
  first function to return, with an error or with \<open>nil\<close>, fires the \<open>sync.Once\<close> of the
  group: its result is what \<open>Wait\<close> reports, and \<open>ctx\<close> is cancelled. Under
  \<open>FirstError\<close> only a non-nil error fires it, as in \<open>errgroup\<close> and in the overview of
  the specification (the first task to return a non-nil error cancels the shared scope,
  and \<open>Wait\<close> returns the first non-nil error, if any). Under \<open>ReturnCancels\<close> the first
  non-nil error is what \<open>Wait\<close> reports, and every return cancels \<open>ctx\<close>. Every theorem
  below holds for the three of them.
\<close>

datatype policy = FirstReturn | FirstError | ReturnCancels

definition group_return ::
  "policy \<Rightarrow> err \<Rightarrow> ('o, 'c, 'm) state \<Rightarrow> ('o, 'c, 'm) state" where
  "group_return pol v s =
     (if \<not> g_once s \<and> (pol = FirstReturn \<or> v \<noteq> None)
      then s\<lparr>g_err := v, g_once := True, ctx_done := True\<rparr>
      else if pol = ReturnCancels then s\<lparr>ctx_done := True\<rparr>
      else s)"

section \<open>Steps of a session\<close>

text \<open>
  One event is one step of one task, or of the environment. The environment is the
  network stream (what \<open>Recv\<close> and \<open>Send\<close> return), the client or the transport ending
  the stream context, and the handler, which is free to do anything at any time while
  \<open>HandleConsume\<close> runs: take a confirmation, hand over a message, return.

  \<^item> \<open>Recv r\<close>: \<open>stream.Recv()\<close> returns at line 48, an error (\<open>Inl\<close>) or a request
    (\<open>Inr\<close>), and the reader runs to its next blocking point or to its return;
  \<^item> \<open>StartHandoff\<close>: the send of line 65 meets the receive of line 104, and the
    invoker calls \<open>HandleConsume\<close> at line 112;
  \<^item> \<open>ConfirmHandoff\<close>: the handler takes the confirmation offered at line 74;
  \<^item> \<open>ReaderCtxDone\<close>, \<open>WriterCtxDone\<close>, \<open>InvokerCtxDone\<close>: the branch \<open>ctx.Done()\<close> of
    a select (lines 66 and 75, line 95, line 108);
  \<^item> \<open>ForClientHandoff m\<close>: the writer takes \<open>m\<close> from the handler at line 87 and
    calls \<open>stream.Send(m)\<close>;
  \<^item> \<open>Send r\<close>: that call returns \<open>r\<close> at line 88;
  \<^item> \<open>HandlerReturn v\<close>: \<open>HandleConsume\<close> returns \<open>v\<close>;
  \<^item> \<open>StreamCtxDone e\<close>: the stream context ends, with the error \<open>e\<close>;
  \<^item> \<open>GroupCtxDone\<close>: \<open>ctx\<close>, a child of the stream context, is closed because its
    parent has ended;
  \<^item> \<open>Wait\<close>, \<open>CheckErr\<close>, \<open>Return\<close>: \<open>g.Wait()\<close> returns at line 115, the test of line
    119, the return of line 122.
\<close>

datatype ('o, 'c, 'm) event =
    Recv "error + ('o, 'c) ConsumerRequest"
  | StartHandoff
  | ConfirmHandoff
  | ReaderCtxDone
  | ForClientHandoff 'm
  | Send err
  | WriterCtxDone
  | InvokerCtxDone
  | HandlerReturn err
  | StreamCtxDone error
  | GroupCtxDone
  | Wait
  | CheckErr
  | Return

text \<open>
  \<open>step pol s ev\<close> is the state after \<open>ev\<close>, or \<open>None\<close> when \<open>ev\<close> cannot happen in \<open>s\<close>.

  The channels are unbuffered, so a send and its receive are one step. The hand-off of
  the start request joins two selects that both also wait on \<open>ctx.Done()\<close>: once that
  channel is closed neither select parks on \<open>startRequest\<close>, and a select parked earlier
  is released by the close, so this hand-off happens only while \<open>ctx\<close> is live. The
  handler's own sends and receives need not watch \<open>ctx\<close>, so the two hand-offs with the
  handler stay possible after cancellation; they need \<open>HandleConsume\<close> to be running.
  \<open>Wait\<close> returns when all three functions have returned, and cancels \<open>ctx\<close>.
\<close>

fun step ::
  "policy \<Rightarrow> ('o, 'c, 'm) state \<Rightarrow> ('o, 'c, 'm) event \<Rightarrow> ('o, 'c, 'm) state option"
where
  "step pol s (Recv r) =
     (case reader s of
        R_Recv \<Rightarrow>
          (case r of
             Inl e \<Rightarrow>
               Some (group_return pol (recv_failed e)
                      (s\<lparr>reader := R_Done (recv_failed e)\<rparr>))
           | Inr msg \<Rightarrow>
               (case dispatch (started s) msg of
                  (st, R_Done v) \<Rightarrow>
                    Some (group_return pol v
                           (s\<lparr>reader := R_Done v, started := st,
                              received := received s @ [msg]\<rparr>))
                | (st, pc) \<Rightarrow>
                    Some (s\<lparr>reader := pc, started := st,
                            received := received s @ [msg]\<rparr>)))
      | _ \<Rightarrow> None)"
| "step pol s StartHandoff =
     (case (reader s, invoker s) of
        (R_SendStart sr, I_Select) \<Rightarrow>
          if ctx_done s then None
          else Some (s\<lparr>reader := R_Recv, invoker := I_Handler (call_of sr),
                       calls := calls s @ [call_of sr]\<rparr>)
      | _ \<Rightarrow> None)"
| "step pol s ConfirmHandoff =
     (case (reader s, invoker s) of
        (R_SendConfirm c, I_Handler _) \<Rightarrow>
          Some (s\<lparr>reader := R_Recv, confirms := confirms s @ [c]\<rparr>)
      | _ \<Rightarrow> None)"
| "step pol s ReaderCtxDone =
     (case reader s of
        R_SendStart sr \<Rightarrow>
          if ctx_done s then Some (group_return pol None (s\<lparr>reader := R_Done None\<rparr>))
          else None
      | R_SendConfirm c \<Rightarrow>
          if ctx_done s then Some (group_return pol None (s\<lparr>reader := R_Done None\<rparr>))
          else None
      | _ \<Rightarrow> None)"
| "step pol s (ForClientHandoff m) =
     (case (writer s, invoker s) of
        (W_Select, I_Handler _) \<Rightarrow>
          Some (s\<lparr>writer := W_Send m, produced := produced s @ [m]\<rparr>)
      | _ \<Rightarrow> None)"
| "step pol s (Send r) =
     (case writer s of
        W_Send m \<Rightarrow>
          (case r of
             None \<Rightarrow> Some (s\<lparr>writer := W_Select, sends := sends s @ [(m, r)]\<rparr>)
           | Some e \<Rightarrow>
               Some (group_return pol (send_failed e)
                      (s\<lparr>writer := W_Done (send_failed e),
                         sends := sends s @ [(m, r)]\<rparr>)))
      | _ \<Rightarrow> None)"
| "step pol s WriterCtxDone =
     (if ctx_done s \<and> writer s = W_Select
      then Some (group_return pol None (s\<lparr>writer := W_Done None\<rparr>))
      else None)"
| "step pol s InvokerCtxDone =
     (if ctx_done s \<and> invoker s = I_Select
      then Some (group_return pol None (s\<lparr>invoker := I_Done None\<rparr>))
      else None)"
| "step pol s (HandlerReturn v) =
     (case invoker s of
        I_Handler _ \<Rightarrow> Some (group_return pol v (s\<lparr>invoker := I_Done v\<rparr>))
      | _ \<Rightarrow> None)"
| "step pol s (StreamCtxDone e) =
     (if sctx_err s = None then Some (s\<lparr>sctx_err := Some e\<rparr>) else None)"
| "step pol s GroupCtxDone =
     (if sctx_err s \<noteq> None \<and> \<not> ctx_done s then Some (s\<lparr>ctx_done := True\<rparr>)
      else None)"
| "step pol s Wait =
     (case (main s, reader s, writer s, invoker s) of
        (M_Wait, R_Done _, W_Done _, I_Done _) \<Rightarrow>
          Some (s\<lparr>main := (if g_err s \<noteq> None then M_Done (g_err s) else M_Check),
                  ctx_done := True\<rparr>)
      | _ \<Rightarrow> None)"
| "step pol s CheckErr =
     (case main s of
        M_Check \<Rightarrow>
          Some (s\<lparr>main :=
                  (if sctx_err s = Some context_Canceled
                   then M_Done (status_Error Canceled (Error context_Canceled))
                   else M_Return)\<rparr>)
      | _ \<Rightarrow> None)"
| "step pol s Return =
     (case main s of
        M_Return \<Rightarrow> Some (s\<lparr>main := M_Done (sctx_err s)\<rparr>)
      | _ \<Rightarrow> None)"

text \<open>A run is a sequence of steps; it fails when one of them cannot happen.\<close>

fun run ::
  "policy \<Rightarrow> ('o, 'c, 'm) state \<Rightarrow> ('o, 'c, 'm) event list \<Rightarrow> ('o, 'c, 'm) state option"
where
  "run pol s [] = Some s"
| "run pol s (ev # evs) =
     (case step pol s ev of None \<Rightarrow> None | Some s' \<Rightarrow> run pol s' evs)"


section \<open>Notions used in the statements\<close>

text \<open>The result of a task that has returned; \<open>None\<close> while it is still running.\<close>

fun reader_result :: "('o, 'c) reader_pc \<Rightarrow> err option" where
  "reader_result (R_Done v) = Some v"
| "reader_result _ = None"

fun writer_result :: "'m writer_pc \<Rightarrow> err option" where
  "writer_result (W_Done v) = Some v"
| "writer_result _ = None"

fun invoker_result :: "'o invoker_pc \<Rightarrow> err option" where
  "invoker_result (I_Done v) = Some v"
| "invoker_result _ = None"

definition all_done :: "('o, 'c, 'm) state \<Rightarrow> bool" where
  "all_done s \<longleftrightarrow>
     reader_result (reader s) \<noteq> None \<and> writer_result (writer s) \<noteq> None \<and>
     invoker_result (invoker s) \<noteq> None"

text \<open>The reader is at one of its two selects, which also wait on \<open>ctx.Done()\<close>.\<close>

fun at_select :: "('o, 'c) reader_pc \<Rightarrow> bool" where
  "at_select (R_SendStart sr) \<longleftrightarrow> True"
| "at_select (R_SendConfirm c) \<longleftrightarrow> True"
| "at_select _ \<longleftrightarrow> False"

text \<open>
  The message the writer holds while it is inside \<open>stream.Send\<close>; the messages the
  handler has handed over in a sequence of events, in order; and the messages that
  reached the network stream, those whose \<open>Send\<close> returned \<open>nil\<close>.
\<close>

fun in_flight :: "'m writer_pc \<Rightarrow> 'm list" where
  "in_flight (W_Send m) = [m]"
| "in_flight _ = []"

fun handed :: "('o, 'c, 'm) event list \<Rightarrow> 'm list" where
  "handed [] = []"
| "handed (ForClientHandoff m # evs) = m # handed evs"
| "handed (ev # evs) = handed evs"

definition on_stream :: "('o, 'c, 'm) state \<Rightarrow> 'm list" where
  "on_stream s = map fst (filter (\<lambda>x. snd x = None) (sends s))"

text \<open>
  The error value an event brings in from outside the bridge: from the network stream,
  from the handler, or from the stream context.
\<close>

fun supplied :: "('o, 'c, 'm) event \<Rightarrow> err" where
  "supplied (Recv (Inl e)) = Some e"
| "supplied (Send r) = r"
| "supplied (HandlerReturn v) = v"
| "supplied (StreamCtxDone e) = Some e"
| "supplied _ = None"

section \<open>Invariants of a session\<close>

text \<open>
  Before the start request is handed over, the handler has not been called, the writer
  and the invoker are in their selects or have returned \<open>nil\<close>, and the reader is in
  \<open>Recv\<close> with nothing received, offers the start request that is the first request
  received, or has returned.
\<close>

fun idle_invoker :: "'o invoker_pc \<Rightarrow> bool" where
  "idle_invoker I_Select \<longleftrightarrow> True"
| "idle_invoker (I_Handler cl) \<longleftrightarrow> False"
| "idle_invoker (I_Done v) \<longleftrightarrow> v = None"

fun idle_writer :: "'m writer_pc \<Rightarrow> bool" where
  "idle_writer W_Select \<longleftrightarrow> True"
| "idle_writer (W_Send m) \<longleftrightarrow> False"
| "idle_writer (W_Done v) \<longleftrightarrow> v = None"

fun awaiting_reader ::
  "('o, 'c) reader_pc \<Rightarrow> bool \<Rightarrow> ('o, 'c) ConsumerRequest list \<Rightarrow> bool" where
  "awaiting_reader R_Recv st rs \<longleftrightarrow> \<not> st \<and> rs = []"
| "awaiting_reader (R_SendStart sr) st rs \<longleftrightarrow>
     st \<and> rs \<noteq> [] \<and> GetStartRequest (hd rs) = Some sr"
| "awaiting_reader (R_SendConfirm c) st rs \<longleftrightarrow> False"
| "awaiting_reader (R_Done v) st rs \<longleftrightarrow> True"

definition awaiting :: "('o, 'c, 'm) state \<Rightarrow> bool" where
  "awaiting s \<longleftrightarrow>
     calls s = [] \<and> sends s = [] \<and> confirms s = [] \<and> produced s = [] \<and>
     idle_invoker (invoker s) \<and> idle_writer (writer s) \<and>
     awaiting_reader (reader s) (started s) (received s)"

text \<open>
  After the hand-over, the handler has been called once, with the call built from the
  first request received, and the reader never offers a start request again.
\<close>

fun invoked_with :: "'o HandleConsume_call \<Rightarrow> 'o invoker_pc \<Rightarrow> bool" where
  "invoked_with cl I_Select \<longleftrightarrow> False"
| "invoked_with cl (I_Handler cl') \<longleftrightarrow> cl' = cl"
| "invoked_with cl (I_Done v) \<longleftrightarrow> True"

fun offers_start :: "('o, 'c) reader_pc \<Rightarrow> bool" where
  "offers_start (R_SendStart sr) \<longleftrightarrow> True"
| "offers_start _ \<longleftrightarrow> False"

definition active :: "('o, 'c, 'm) state \<Rightarrow> bool" where
  "active s \<longleftrightarrow>
     started s \<and> received s \<noteq> [] \<and> GetStartRequest (hd (received s)) \<noteq> None \<and>
     calls s = [call_of (the (GetStartRequest (hd (received s))))] \<and>
     invoked_with (call_of (the (GetStartRequest (hd (received s))))) (invoker s) \<and>
     \<not> offers_start (reader s)"

text \<open>
  The group: once its \<open>sync.Once\<close> has fired \<open>ctx\<close> is done and some task has returned;
  before that no error is recorded; a recorded error is the result of one of the tasks.
\<close>

definition group_inv :: "('o, 'c, 'm) state \<Rightarrow> bool" where
  "group_inv s \<longleftrightarrow>
     (g_once s \<longrightarrow> ctx_done s) \<and> (\<not> g_once s \<longrightarrow> g_err s = None)"

definition reported :: "('o, 'c, 'm) state \<Rightarrow> bool" where
  "reported s \<longleftrightarrow>
     (g_err s \<noteq> None \<longrightarrow>
        reader_result (reader s) = Some (g_err s) \<or>
        writer_result (writer s) = Some (g_err s) \<or>
        invoker_result (invoker s) = Some (g_err s))"

definition unfired :: "('o, 'c, 'm) state \<Rightarrow> bool" where
  "unfired s \<longleftrightarrow>
     (g_once s \<longrightarrow>
        reader_result (reader s) \<noteq> None \<or> writer_result (writer s) \<noteq> None \<or>
        invoker_result (invoker s) \<noteq> None)"

text \<open>
  The body of \<open>Consume\<close> leaves \<open>g.Wait()\<close> only when the three tasks have returned;
  it passes line 119 only when the group reported no error; and what it returns is the
  error of the group or, without one, \<open>nil\<close> or something read from a stream context
  that is done.
\<close>

fun exit_ok :: "main_pc \<Rightarrow> err \<Rightarrow> err \<Rightarrow> bool" where
  "exit_ok M_Wait g c \<longleftrightarrow> True"
| "exit_ok M_Check g c \<longleftrightarrow> g = None"
| "exit_ok M_Return g c \<longleftrightarrow> g = None"
| "exit_ok (M_Done r) g c \<longleftrightarrow> (if g \<noteq> None then r = g else r = None \<or> c \<noteq> None)"

definition exit_inv :: "('o, 'c, 'm) state \<Rightarrow> bool" where
  "exit_inv s \<longleftrightarrow>
     (main s \<noteq> M_Wait \<longrightarrow> all_done s \<and> ctx_done s) \<and>
     exit_ok (main s) (g_err s) (sctx_err s)"

text \<open>
  The writer: what it took from \<open>forClient\<close> is what it passed to \<open>Send\<close>, in order,
  plus the message in flight; only the last \<open>Send\<close> can have failed, and none has
  while the writer is running.
\<close>

definition forwarded :: "('o, 'c, 'm) state \<Rightarrow> bool" where
  "forwarded s \<longleftrightarrow>
     produced s = map fst (sends s) @ in_flight (writer s) \<and>
     (\<forall>x \<in> set (butlast (sends s)). snd x = None) \<and>
     (writer_result (writer s) = None \<longrightarrow> (\<forall>x \<in> set (sends s). snd x = None))"

text \<open>The flag \<open>started\<close> says that a request with a start request has been received.\<close>

definition started_inv :: "('o, 'c, 'm) state \<Rightarrow> bool" where
  "started_inv s \<longleftrightarrow>
     (started s \<longleftrightarrow> (\<exists>m \<in> set (received s). GetStartRequest m \<noteq> None))"

definition inv :: "('o, 'c, 'm) state \<Rightarrow> bool" where
  "inv s \<longleftrightarrow>
     (awaiting s \<or> active s) \<and> group_inv s \<and> reported s \<and> unfired s \<and> exit_inv s \<and>
     forwarded s \<and> started_inv s"

text \<open>
  The way out of \<open>Consume\<close>, relative to the moment \<open>g.Wait()\<close> returned: \<open>g\<close> is the
  error of the group and \<open>c0\<close> the error of the stream context at that moment, \<open>c\<close> the
  error of the stream context now.
\<close>

fun exit_at :: "err \<Rightarrow> err \<Rightarrow> err \<Rightarrow> main_pc \<Rightarrow> bool" where
  "exit_at g c0 c M_Wait \<longleftrightarrow> False"
| "exit_at g c0 c M_Check \<longleftrightarrow> g = None"
| "exit_at g c0 c M_Return \<longleftrightarrow> g = None \<and> c0 \<noteq> Some context_Canceled"
| "exit_at g c0 c (M_Done r) \<longleftrightarrow>
     (if g \<noteq> None then r = g
      else if c0 = Some context_Canceled then r = Some (Status Canceled ''context canceled'')
      else if c0 \<noteq> None then r = c0
      else r = None \<or> r = c \<or>
        r = Some (Status Canceled ''context canceled'') \<and> c = Some context_Canceled)"

definition exiting :: "err \<Rightarrow> err \<Rightarrow> ('o, 'c, 'm) state \<Rightarrow> bool" where
  "exiting g c0 s \<longleftrightarrow>
     all_done s \<and> g_err s = g \<and> (c0 \<noteq> None \<longrightarrow> sctx_err s = c0) \<and>
     exit_at g c0 (sctx_err s) (main s)"

text \<open>The handler was the one to fire the group, with the error \<open>e\<close>.\<close>

definition failed :: "error \<Rightarrow> ('o, 'c, 'm) state \<Rightarrow> bool" where
  "failed e s \<longleftrightarrow>
     g_once s \<and> g_err s = Some e \<and> invoker s = I_Done (Some e) \<and> ctx_done s"

text \<open>
  A session that is cancelled before the hand-over is draining: every step uses up one
  of the steps its tasks have left.
\<close>

fun reader_left :: "('o, 'c) reader_pc \<Rightarrow> nat" where
  "reader_left R_Recv = 2"
| "reader_left (R_SendStart sr) = 1"
| "reader_left (R_SendConfirm c) = 1"
| "reader_left (R_Done v) = 0"

fun writer_left :: "'m writer_pc \<Rightarrow> nat" where
  "writer_left W_Select = 1"
| "writer_left (W_Send m) = 2"
| "writer_left (W_Done v) = 0"

fun invoker_left :: "'o invoker_pc \<Rightarrow> nat" where
  "invoker_left I_Select = 1"
| "invoker_left (I_Handler cl) = 1"
| "invoker_left (I_Done v) = 0"

fun main_left :: "main_pc \<Rightarrow> nat" where
  "main_left M_Wait = 3"
| "main_left M_Check = 2"
| "main_left M_Return = 1"
| "main_left (M_Done r) = 0"

definition remaining :: "('o, 'c, 'm) state \<Rightarrow> nat" where
  "remaining s =
     reader_left (reader s) + writer_left (writer s) + invoker_left (invoker s) +
     (if sctx_err s = None then 1 else 0) + main_left (main s)"

definition draining :: "('o, 'c, 'm) state \<Rightarrow> bool" where
  "draining s \<longleftrightarrow> awaiting s \<and> ctx_done s"

text \<open>The stream context has ended with \<open>context.Canceled\<close>.\<close>

fun exit_c :: "main_pc \<Rightarrow> err \<Rightarrow> bool" where
  "exit_c M_Wait g \<longleftrightarrow> True"
| "exit_c M_Check g \<longleftrightarrow> True"
| "exit_c M_Return g \<longleftrightarrow> False"
| "exit_c (M_Done r) g \<longleftrightarrow> (g = None \<longrightarrow> r = Some (Status Canceled ''context canceled''))"

definition cancelled :: "('o, 'c, 'm) state \<Rightarrow> bool" where
  "cancelled s \<longleftrightarrow>
     (main s \<noteq> M_Wait \<longrightarrow> all_done s) \<and> sctx_err s = Some context_Canceled \<and>
     exit_c (main s) (g_err s)"

text \<open>
  The value \<open>x\<close> occurs nowhere in the state; and \<open>x\<close> is none of the values the bridge
  makes itself.
\<close>

definition free_of :: "err \<Rightarrow> ('o, 'c, 'm) state \<Rightarrow> bool" where
  "free_of x s \<longleftrightarrow>
     reader_result (reader s) \<noteq> Some x \<and> writer_result (writer s) \<noteq> Some x \<and>
     invoker_result (invoker s) \<noteq> Some x \<and> g_err s \<noteq> x \<and> sctx_err s \<noteq> x \<and>
     main s \<noteq> M_Done x"

definition foreign :: "err \<Rightarrow> bool" where
  "foreign x \<longleftrightarrow>
     x \<noteq> None \<and> x \<noteq> errStartedTwice \<and> x \<noteq> errInvalidConfirm \<and> x \<noteq> errInvalidRequest \<and>
     x \<noteq> status_Error Canceled (Error context_Canceled)"

section \<open>Concrete sessions\<close>

text \<open>
  Requests and sessions with offsets, confirmations and messages numbered by naturals:
  the start request of a consumer \<open>c1\<close> on the topic \<open>orders\<close>, a confirmation, a request
  with neither part set, and the state a sequence of events leads to.
\<close>

definition start_req :: "(nat, nat) ConsumerRequest" where
  "start_req =
     \<lparr>GetStartRequest =
        Some \<lparr>GetTopic = ''orders'', GetConsumer = ''c1'', GetInitialOffset = 0\<rparr>,
      GetConfirmation = None\<rparr>"

definition confirm_req :: "nat \<Rightarrow> (nat, nat) ConsumerRequest" where
  "confirm_req n = \<lparr>GetStartRequest = None, GetConfirmation = Some n\<rparr>"

definition empty_req :: "(nat, nat) ConsumerRequest" where
  "empty_req = \<lparr>GetStartRequest = None, GetConfirmation = None\<rparr>"

definition session :: "policy \<Rightarrow> (nat, nat, nat) event list \<Rightarrow> (nat, nat, nat) state" where
  "session pol evs = the (run pol init evs)"

text \<open>
  A client that starts, gets one message, confirms it and closes the stream, with a
  handler that then returns \<open>nil\<close>.
\<close>

definition clean_session :: "(nat, nat, nat) event list" where
  "clean_session =
     [Recv (Inr start_req), StartHandoff, ForClientHandoff 1, Send None,
      Recv (Inr (confirm_req 1)), ConfirmHandoff, Recv (Inl io_EOF), HandlerReturn None,
      WriterCtxDone]"

text \<open>
  The same start, but the one \<open>Send\<close> is refused because the message is too large; the
  handler still returns \<open>nil\<close> and the client closes the stream.
\<close>

definition send_failure_session :: "(nat, nat, nat) event list" where
  "send_failure_session =
     [Recv (Inr start_req), StartHandoff, ForClientHandoff 1,
      Send (Some (Status ResourceExhausted ''trying to send message larger than max'')),
      HandlerReturn None, Recv (Inl io_EOF), Wait]"

text \<open>
  The client cancels before it has sent a start request; then the reader still finds a
  request with neither part set.
\<close>

definition cancel_first :: "(nat, nat, nat) event list" where
  "cancel_first = [StreamCtxDone context_Canceled, GroupCtxDone]"

definition violation_after_cancel :: "(nat, nat, nat) event list" where
  "violation_after_cancel = [Recv (Inr empty_req), WriterCtxDone, InvokerCtxDone, Wait]"

text \<open>
  The end of \<open>Consume\<close> with the stream context ending between the test of line 119
  and the return of line 122; and a session in which the three tasks return \<open>nil\<close>
  without \<open>ctx\<close> being cancelled by a return, the writer on an error of \<open>Send\<close> whose
  text ends in \<open>context canceled\<close>.
\<close>

definition late_cancel :: "(nat, nat, nat) event list" where
  "late_cancel = [Wait, CheckErr, StreamCtxDone context_Canceled, Return]"

definition quiet_session :: "(nat, nat, nat) event list" where
  "quiet_session =
     [Recv (Inr start_req), StartHandoff, ForClientHandoff 1,
      Send (Some (Other ''upstream proxy: context canceled'')), HandlerReturn None,
      Recv (Inl io_EOF)]"

text \<open>A handler that returns the value \<open>errNotConnected\<close>.\<close>

definition not_connected_session :: "(nat, nat, nat) event list" where
  "not_connected_session =
     [Recv (Inr start_req), StartHandoff, HandlerReturn errNotConnected, WriterCtxDone,
      Recv (Inl io_EOF), Wait]"

text \<open>Three messages, with confirmations read and handed to the handler in between.\<close>

definition three_messages :: "(nat, nat, nat) event list" where
  "three_messages =
     [Recv (Inr start_req), StartHandoff, ForClientHandoff 1, Send None,
      Recv (Inr (confirm_req 1)), ForClientHandoff 2, ConfirmHandoff, Send None,
      ForClientHandoff 3, Recv (Inr (confirm_req 2)), Send None, ConfirmHandoff]"

section \<open>What each event does\<close>

lemma err_consts:
  "errStartedTwice = Some (Status InvalidArgument ''consumption already started'')"
  "errInvalidConfirm = Some (Status InvalidArgument ''invalid confirmation'')"
  "errNotConnected = Some (Status InvalidArgument ''not connected to a topic'')"
  "errInvalidRequest = Some (Status InvalidArgument
     ''invalid consumer request - this is possibly a bug in your client library'')"
  by (simp_all add: errStartedTwice_def errInvalidConfirm_def errNotConnected_def
      errInvalidRequest_def status_Error_def)

lemma group_return_fields [simp]:
  "reader (group_return pol v s) = reader s"
  "started (group_return pol v s) = started s"
  "writer (group_return pol v s) = writer s"
  "invoker (group_return pol v s) = invoker s"
  "main (group_return pol v s) = main s"
  "sctx_err (group_return pol v s) = sctx_err s"
  "received (group_return pol v s) = received s"
  "calls (group_return pol v s) = calls s"
  "confirms (group_return pol v s) = confirms s"
  "produced (group_return pol v s) = produced s"
  "sends (group_return pol v s) = sends s"
  by (simp_all add: group_return_def)

lemma group_return_group [simp]:
  "ctx_done (group_return pol v s) \<longleftrightarrow>
     ctx_done s \<or> pol = ReturnCancels \<or> \<not> g_once s \<and> (pol = FirstReturn \<or> v \<noteq> None)"
  "g_once (group_return pol v s) \<longleftrightarrow> g_once s \<or> pol = FirstReturn \<or> v \<noteq> None"
  "g_err (group_return pol v s) =
     (if \<not> g_once s \<and> (pol = FirstReturn \<or> v \<noteq> None) then v else g_err s)"
  by (auto simp: group_return_def)

lemma started_same:
  "started s \<Longrightarrow> s\<lparr>started := True\<rparr> = s"
  "\<not> started s \<Longrightarrow> s\<lparr>started := False\<rparr> = s"
  by (cases s; simp)+

lemma step_Recv:
  "step pol s (Recv r) = Some s' \<longleftrightarrow>
     reader s = R_Recv \<and>
     (case r of
        Inl e \<Rightarrow> s' = group_return pol (recv_failed e) (s\<lparr>reader := R_Done (recv_failed e)\<rparr>)
      | Inr msg \<Rightarrow>
          (case GetStartRequest msg of
             Some sr \<Rightarrow>
               if started s
               then s' = group_return pol errStartedTwice
                      (s\<lparr>reader := R_Done errStartedTwice, received := received s @ [msg]\<rparr>)
               else s' = s\<lparr>reader := R_SendStart sr, started := True,
                           received := received s @ [msg]\<rparr>
           | None \<Rightarrow>
               (case GetConfirmation msg of
                  Some c \<Rightarrow>
                    if started s
                    then s' = s\<lparr>reader := R_SendConfirm c, received := received s @ [msg]\<rparr>
                    else s' = group_return pol errInvalidConfirm
                           (s\<lparr>reader := R_Done errInvalidConfirm,
                              received := received s @ [msg]\<rparr>)
                | None \<Rightarrow>
                    s' = group_return pol errInvalidRequest
                           (s\<lparr>reader := R_Done errInvalidRequest,
                              received := received s @ [msg]\<rparr>))))"
  by (cases "reader s"; cases r; cases "started s")
     (auto simp: dispatch_def started_same split: option.splits)

lemma step_StartHandoff:
  "step pol s StartHandoff = Some s' \<longleftrightarrow>
     (\<exists>sr. reader s = R_SendStart sr \<and> invoker s = I_Select \<and> \<not> ctx_done s \<and>
        s' = s\<lparr>reader := R_Recv, invoker := I_Handler (call_of sr),
               calls := calls s @ [call_of sr]\<rparr>)"
  by (cases "reader s"; cases "invoker s") auto

lemma step_ConfirmHandoff:
  "step pol s ConfirmHandoff = Some s' \<longleftrightarrow>
     (\<exists>c cl. reader s = R_SendConfirm c \<and> invoker s = I_Handler cl \<and>
        s' = s\<lparr>reader := R_Recv, confirms := confirms s @ [c]\<rparr>)"
  by (cases "reader s"; cases "invoker s") auto

lemma step_ReaderCtxDone:
  "step pol s ReaderCtxDone = Some s' \<longleftrightarrow>
     ctx_done s \<and> ((\<exists>sr. reader s = R_SendStart sr) \<or> (\<exists>c. reader s = R_SendConfirm c)) \<and>
     s' = group_return pol None (s\<lparr>reader := R_Done None\<rparr>)"
  by (cases "reader s") auto

lemma step_ForClientHandoff:
  "step pol s (ForClientHandoff m) = Some s' \<longleftrightarrow>
     (\<exists>cl. writer s = W_Select \<and> invoker s = I_Handler cl \<and>
        s' = s\<lparr>writer := W_Send m, produced := produced s @ [m]\<rparr>)"
  by (cases "writer s"; cases "invoker s") auto

lemma step_Send:
  "step pol s (Send r) = Some s' \<longleftrightarrow>
     (\<exists>m. writer s = W_Send m \<and>
        (case r of
           None \<Rightarrow> s' = s\<lparr>writer := W_Select, sends := sends s @ [(m, None)]\<rparr>
         | Some e \<Rightarrow>
             s' = group_return pol (send_failed e)
                   (s\<lparr>writer := W_Done (send_failed e), sends := sends s @ [(m, Some e)]\<rparr>)))"
  by (cases "writer s"; cases r) auto

lemma step_WriterCtxDone:
  "step pol s WriterCtxDone = Some s' \<longleftrightarrow>
     ctx_done s \<and> writer s = W_Select \<and>
     s' = group_return pol None (s\<lparr>writer := W_Done None\<rparr>)"
  by auto

lemma step_InvokerCtxDone:
  "step pol s InvokerCtxDone = Some s' \<longleftrightarrow>
     ctx_done s \<and> invoker s = I_Select \<and>
     s' = group_return pol None (s\<lparr>invoker := I_Done None\<rparr>)"
  by auto

lemma step_HandlerReturn:
  "step pol s (HandlerReturn v) = Some s' \<longleftrightarrow>
     (\<exists>cl. invoker s = I_Handler cl \<and>
        s' = group_return pol v (s\<lparr>invoker := I_Done v\<rparr>))"
  by (cases "invoker s") auto

lemma step_StreamCtxDone:
  "step pol s (StreamCtxDone e) = Some s' \<longleftrightarrow>
     sctx_err s = None \<and> s' = s\<lparr>sctx_err := Some e\<rparr>"
  by auto

lemma step_GroupCtxDone:
  "step pol s GroupCtxDone = Some s' \<longleftrightarrow>
     sctx_err s \<noteq> None \<and> \<not> ctx_done s \<and> s' = s\<lparr>ctx_done := True\<rparr>"
  by auto

lemma step_Wait:
  "step pol s Wait = Some s' \<longleftrightarrow>
     (\<exists>a b c. main s = M_Wait \<and> reader s = R_Done a \<and> writer s = W_Done b \<and>
        invoker s = I_Done c \<and>
        s' = s\<lparr>main := (if g_err s \<noteq> None then M_Done (g_err s) else M_Check),
               ctx_done := True\<rparr>)"
  by (cases "main s"; cases "reader s"; cases "writer s"; cases "invoker s") auto

lemma step_CheckErr:
  "step pol s CheckErr = Some s' \<longleftrightarrow>
     main s = M_Check \<and>
     s' = s\<lparr>main := (if sctx_err s = Some context_Canceled
                      then M_Done (Some (Status Canceled ''context canceled''))
                      else M_Return)\<rparr>"
  by (cases "main s") (auto simp: status_Error_def)

lemma step_Return:
  "step pol s Return = Some s' \<longleftrightarrow> main s = M_Return \<and> s' = s\<lparr>main := M_Done (sctx_err s)\<rparr>"
  by (cases "main s") auto

lemmas step_iff =
  step_Recv step_StartHandoff step_ConfirmHandoff step_ReaderCtxDone
  step_ForClientHandoff step_Send step_WriterCtxDone step_InvokerCtxDone
  step_HandlerReturn step_StreamCtxDone step_GroupCtxDone step_Wait step_CheckErr
  step_Return

lemmas ev_splits = sum.splits option.splits if_splits

declare step.simps [simp del]

lemma finished_reader_disabled:
  "reader s = R_Done v \<Longrightarrow> step pol s (Recv r) = None"
  "reader s = R_Done v \<Longrightarrow> step pol s StartHandoff = None"
  "reader s = R_Done v \<Longrightarrow> step pol s ConfirmHandoff = None"
  "reader s = R_Done v \<Longrightarrow> step pol s ReaderCtxDone = None"
  by (simp_all add: step.simps)

section \<open>Runs\<close>

lemma run_invariant:
  assumes "\<And>s ev s'. P s \<Longrightarrow> step pol s ev = Some s' \<Longrightarrow> P s'"
    and "P s" and "run pol s evs = Some s'"
  shows "P s'"
  using assms(2,3)
proof (induction evs arbitrary: s)
  case Nil
  then show ?case by simp
next
  case (Cons ev evs)
  then show ?case by (auto split: option.splits intro: assms(1))
qed

section \<open>The invariants hold in every reachable state\<close>

lemma awaiting_step:
  "awaiting s \<Longrightarrow> step pol s ev = Some s' \<Longrightarrow> awaiting s' \<or> active s'"
  by (cases ev)
    (auto simp: step_iff awaiting_def active_def split: ev_splits)

lemma active_step:
  "active s \<Longrightarrow> step pol s ev = Some s' \<Longrightarrow> active s'"
  by (cases ev)
    (auto simp: step_iff active_def split: ev_splits)

lemma phase_step:
  "awaiting s \<or> active s \<Longrightarrow> step pol s ev = Some s' \<Longrightarrow> awaiting s' \<or> active s'"
  using awaiting_step active_step by blast

lemma group_step:
  "group_inv s \<Longrightarrow> step pol s ev = Some s' \<Longrightarrow> group_inv s'"
  by (cases ev)
    (auto simp: step_iff group_inv_def split: ev_splits)

lemma reported_step:
  "reported s \<Longrightarrow> step pol s ev = Some s' \<Longrightarrow> reported s'"
  by (cases ev)
    (auto simp: step_iff reported_def split: ev_splits)

lemma unfired_step:
  "unfired s \<Longrightarrow> step pol s ev = Some s' \<Longrightarrow> unfired s'"
  by (cases ev)
    (auto simp: step_iff unfired_def split: ev_splits)

lemma exit_ok_mono: "exit_ok pc g None \<Longrightarrow> exit_ok pc g (Some e)"
  by (cases pc) (auto split: if_splits)

lemma exit_step:
  "exit_inv s \<Longrightarrow> step pol s ev = Some s' \<Longrightarrow> exit_inv s'"
  by (cases ev)
    (auto simp: step_iff exit_inv_def all_done_def exit_ok_mono split: ev_splits)

lemma forwarded_step:
  "forwarded s \<Longrightarrow> step pol s ev = Some s' \<Longrightarrow> forwarded s'"
  by (cases ev)
    (auto simp: step_iff forwarded_def split: ev_splits)

lemma started_step:
  "started_inv s \<Longrightarrow> step pol s ev = Some s' \<Longrightarrow> started_inv s'"
  by (cases ev)
    (auto simp: step_iff started_inv_def split: ev_splits)

lemma inv_step:
  assumes "inv s" and "step pol s ev = Some s'"
  shows "inv s'"
proof -
  from assms(1) have a: "awaiting s \<or> active s" and b: "group_inv s" and c: "reported s"
    and d: "unfired s" and e: "exit_inv s" and f: "forwarded s" and g: "started_inv s"
    by (simp_all add: inv_def)
  show ?thesis
    unfolding inv_def
    using phase_step [OF a assms(2)] group_step [OF b assms(2)]
      reported_step [OF c assms(2)] unfired_step [OF d assms(2)]
      exit_step [OF e assms(2)] forwarded_step [OF f assms(2)]
      started_step [OF g assms(2)]
    by simp
qed

lemma inv_init: "inv init"
  by (simp add: inv_def awaiting_def group_inv_def reported_def unfired_def exit_inv_def
      forwarded_def started_inv_def init_def)

lemma inv_run: "inv s \<Longrightarrow> run pol s evs = Some s' \<Longrightarrow> inv s'"
  using inv_step by (rule run_invariant)

lemma inv_reachable: "run pol init evs = Some s \<Longrightarrow> inv s"
  using inv_init by (rule inv_run)

lemma inv_after:
  "run pol init evs = Some s \<Longrightarrow> step pol s ev = Some s1 \<Longrightarrow> run pol s1 evs' = Some s2
     \<Longrightarrow> inv s \<and> inv s1 \<and> inv s2"
  using inv_reachable inv_step inv_run by blast

lemma awaiting_not_invoked:
  "awaiting s \<Longrightarrow> calls s = [] \<and> (\<forall>cl. invoker s \<noteq> I_Handler cl)"
  by (auto simp: awaiting_def)

lemma all_nil_no_error:
  assumes "inv s" and "reader s = R_Done None" and "writer s = W_Done None"
    and "invoker s = I_Done None"
  shows "g_err s = None"
  using assms by (auto simp: inv_def reported_def)

section \<open>The way out of \<open>Consume\<close>\<close>

lemma exit_at_mono: "exit_at g None None pc \<Longrightarrow> exit_at g None (Some e) pc"
  by (cases pc) (auto split: if_splits)

lemma exiting_step:
  "exiting g c0 s \<Longrightarrow> step pol s ev = Some s' \<Longrightarrow> exiting g c0 s'"
  by (cases ev)
    (auto simp: step_iff exiting_def all_done_def exit_at_mono split: ev_splits)

lemma exiting_Wait:
  "step pol s Wait = Some t \<Longrightarrow> all_done s \<and> exiting (g_err s) (sctx_err s) t"
  by (auto simp: step_iff exiting_def all_done_def)

lemma exit_completes:
  assumes "step pol s Wait = Some t"
  shows "\<exists>path v q. length path \<le> 2 \<and> run pol t path = Some v \<and> main v = M_Done q"
proof (cases "g_err s = None")
  case False
  then have "length [] \<le> (2::nat) \<and> run pol t [] = Some t \<and> main t = M_Done (g_err s)"
    using assms by (auto simp: step_iff)
  then show ?thesis by blast
next
  case True
  then have m: "main t = M_Check"
    using assms by (auto simp: step_iff)
  show ?thesis
  proof (cases "sctx_err t = Some context_Canceled")
    case True
    define v where "v = t\<lparr>main := M_Done (Some (Status Canceled ''context canceled''))\<rparr>"
    have "length [CheckErr] \<le> 2 \<and> run pol t [CheckErr] = Some v \<and>
      main v = M_Done (Some (Status Canceled ''context canceled''))"
      using m True by (simp add: step.simps status_Error_def v_def)
    then show ?thesis by blast
  next
    case False
    define v where "v = t\<lparr>main := M_Done (sctx_err t)\<rparr>"
    have "length [CheckErr, Return] \<le> 2 \<and> run pol t [CheckErr, Return] = Some v \<and>
      main v = M_Done (sctx_err t)"
      using m False by (simp add: step.simps v_def)
    then show ?thesis by blast
  qed
qed

text \<open>
  From the state \<open>s\<close> in which \<open>g.Wait()\<close> returns: an error of the group is returned
  unchanged; without one, a stream context that has already ended with
  \<open>context.Canceled\<close> gives the status error of code \<open>Canceled\<close>, one that has ended with
  another error gives that error, and one that is still live at the return gives \<open>nil\<close>.
  A stream context that ends only after \<open>g.Wait()\<close> has returned is read at line 119 and
  again at line 122, and then nothing more is known than the last but one part.
\<close>

lemma exit_rule:
  assumes "step pol s Wait = Some t" and "run pol t evs = Some u" and "main u = M_Done r"
  shows "all_done s \<and>
    (\<forall>e. g_err s = Some e \<longrightarrow> r = Some e) \<and>
    (g_err s = None \<longrightarrow> sctx_err s = Some context_Canceled \<longrightarrow>
       r = status_Error Canceled (Error context_Canceled) \<and>
       r = Some (Status Canceled ''context canceled'')) \<and>
    (g_err s = None \<longrightarrow> (\<forall>e. sctx_err s = Some e \<longrightarrow> e \<noteq> context_Canceled \<longrightarrow> r = Some e)) \<and>
    (g_err s = None \<longrightarrow> sctx_err u = None \<longrightarrow> r = None) \<and>
    (g_err s = None \<longrightarrow>
       r = None \<or> r = sctx_err u \<or> r = Some (Status Canceled ''context canceled'')) \<and>
    (\<exists>path v q. length path \<le> 2 \<and> run pol t path = Some v \<and> main v = M_Done q)"
proof -
  have d: "all_done s" and e0: "exiting (g_err s) (sctx_err s) t"
    using exiting_Wait [OF assms(1)] by simp_all
  have "exiting (g_err s) (sctx_err s) u"
    using exiting_step e0 assms(2) by (rule run_invariant)
  then show ?thesis
    using d exit_completes [OF assms(1)]
    by (auto simp: exiting_def assms(3) status_Error_def split: if_splits)
qed

lemma exit_rule_example:
  "step FirstReturn (session FirstReturn (cancel_first @
       [Recv (Inl io_EOF), WriterCtxDone, InvokerCtxDone])) Wait
     = Some (session FirstReturn (cancel_first @
       [Recv (Inl io_EOF), WriterCtxDone, InvokerCtxDone, Wait])) \<and>
   run FirstReturn (session FirstReturn (cancel_first @
       [Recv (Inl io_EOF), WriterCtxDone, InvokerCtxDone, Wait])) [CheckErr]
     = Some (session FirstReturn (cancel_first @
       [Recv (Inl io_EOF), WriterCtxDone, InvokerCtxDone, Wait, CheckErr])) \<and>
   main (session FirstReturn (cancel_first @
       [Recv (Inl io_EOF), WriterCtxDone, InvokerCtxDone, Wait, CheckErr]))
     = M_Done (Some (Status Canceled ''context canceled'')) \<and>
   g_err (session FirstReturn (cancel_first @
       [Recv (Inl io_EOF), WriterCtxDone, InvokerCtxDone])) = None \<and>
   sctx_err (session FirstReturn (cancel_first @
       [Recv (Inl io_EOF), WriterCtxDone, InvokerCtxDone])) = Some context_Canceled \<and>
   all_done (session FirstReturn (cancel_first @
       [Recv (Inl io_EOF), WriterCtxDone, InvokerCtxDone]))"
  (is "?h1 \<and> ?h2 \<and> ?h3 \<and> ?g \<and> ?c \<and> ?d")
proof -
  have h1: ?h1 and h2: ?h2 and h3: ?h3 and g: ?g and c: ?c
    by code_simp+
  show ?thesis
    using h1 h2 h3 g c exit_rule [OF h1 h2 h3] by simp
qed

text \<open>
  The two reads: whenever the test of line 119 finds the stream context live and the
  context ends with \<open>e\<close> before line 122, \<open>Consume\<close> returns \<open>e\<close> as it is, also when \<open>e\<close>
  is \<open>context.Canceled\<close>.
\<close>

lemma double_read:
  "main s = M_Check \<Longrightarrow> sctx_err s = None \<Longrightarrow>
     \<exists>t. run pol s [CheckErr, StreamCtxDone e, Return] = Some t \<and>
       main t = M_Done (Some e) \<and> sctx_err t = Some e"
  by (simp add: step.simps)

section \<open>A reader that has returned\<close>

lemma reader_finished_step:
  "reader s = R_Done v \<and> received s = rs \<and> confirms s = cs \<and> calls s = cl
     \<Longrightarrow> step pol s ev = Some s'
     \<Longrightarrow> reader s' = R_Done v \<and> received s' = rs \<and> confirms s' = cs \<and> calls s' = cl"
  by (cases ev) (auto simp: step_iff split: ev_splits)

lemma reader_finished_run:
  assumes "reader s = R_Done v" and "run pol s evs = Some s'"
  shows "reader s' = R_Done v \<and> received s' = received s \<and> confirms s' = confirms s \<and>
    calls s' = calls s"
proof -
  have "reader s = R_Done v \<and> received s = received s \<and> confirms s = confirms s \<and>
    calls s = calls s"
    using assms(1) by simp
  with reader_finished_step show ?thesis
    using assms(2) by (rule run_invariant)
qed

section \<open>The writer forwards in order\<close>

lemma produced_step:
  "step pol s ev = Some s' \<Longrightarrow> produced s' = produced s @ handed [ev]"
  by (cases ev) (auto simp: step_iff split: ev_splits)

lemma handed_append: "handed (xs @ ys) = handed xs @ handed ys"
  by (induction xs rule: handed.induct) simp_all

lemma produced_run:
  "run pol s evs = Some s' \<Longrightarrow> produced s' = produced s @ handed evs"
proof (induction evs arbitrary: s)
  case Nil
  then show ?case by simp
next
  case (Cons ev evs)
  from Cons.prems obtain s1 where 1: "step pol s ev = Some s1" and 2: "run pol s1 evs = Some s'"
    by (auto split: option.splits)
  have "handed (ev # evs) = handed [ev] @ handed evs"
    using handed_append [of "[ev]" evs] by simp
  then show ?case
    using Cons.IH [OF 2] produced_step [OF 1] by simp
qed

lemma on_stream_forwarded:
  assumes "forwarded s"
  shows "prefix (on_stream s) (produced s) \<and>
    length (produced s) \<le> length (on_stream s) + 1 \<and>
    (writer s = W_Select \<longrightarrow> on_stream s = produced s)"
proof (cases "sends s" rule: rev_cases)
  case Nil
  then show ?thesis
    using assms by (cases "writer s") (auto simp: forwarded_def on_stream_def)
next
  case (snoc xs x)
  then have ok: "\<forall>y \<in> set xs. snd y = None"
    using assms by (simp add: forwarded_def)
  then have f: "filter (\<lambda>x. snd x = None) xs = xs"
    by (simp add: filter_id_conv)
  show ?thesis
    using assms snoc f by (cases "writer s") (auto simp: forwarded_def on_stream_def)
qed

section \<open>Tasks at a select once \<open>ctx\<close> is done\<close>

lemma writer_stops:
  assumes "ctx_done s" and "writer s = W_Select"
    and "invoker_result (invoker s) \<noteq> None \<or> invoker s = I_Select"
  shows "(\<exists>s'. step pol s WriterCtxDone = Some s' \<and> writer s' = W_Done None) \<and>
    (\<forall>ev s'. step pol s ev = Some s' \<longrightarrow> writer s' = W_Select \<or> writer s' = W_Done None)"
proof -
  have "writer s' = W_Select \<or> writer s' = W_Done None" if "step pol s ev = Some s'" for ev s'
    using that assms by (cases ev) (auto simp: step_iff split: ev_splits)
  then show ?thesis
    using assms by (simp add: step_iff)
qed

lemma invoker_stops:
  assumes "ctx_done s" and "invoker s = I_Select"
  shows "(\<exists>s'. step pol s InvokerCtxDone = Some s' \<and> invoker s' = I_Done None) \<and>
    (\<forall>ev s'. step pol s ev = Some s' \<longrightarrow> invoker s' = I_Select \<or> invoker s' = I_Done None)"
proof -
  have "invoker s' = I_Select \<or> invoker s' = I_Done None" if "step pol s ev = Some s'" for ev s'
    using that assms by (cases ev) (auto simp: step_iff split: ev_splits)
  then show ?thesis
    using assms by (simp add: step_iff)
qed

lemma reader_stops:
  assumes "ctx_done s" and "at_select (reader s)"
    and "invoker_result (invoker s) \<noteq> None \<or> invoker s = I_Select"
  shows "(\<exists>s'. step pol s ReaderCtxDone = Some s' \<and> reader s' = R_Done None) \<and>
    (\<forall>ev s'. step pol s ev = Some s' \<longrightarrow> reader s' = reader s \<or> reader s' = R_Done None)"
proof -
  have "reader s' = reader s \<or> reader s' = R_Done None" if "step pol s ev = Some s'" for ev s'
    using that assms by (cases ev) (auto simp: step_iff split: ev_splits)
  moreover have "\<exists>s'. step pol s ReaderCtxDone = Some s' \<and> reader s' = R_Done None"
    using assms by (cases "reader s") (simp_all add: step_iff)
  ultimately show ?thesis by simp
qed

lemma failed_step: "failed e s \<Longrightarrow> step pol s ev = Some s' \<Longrightarrow> failed e s'"
  by (cases ev) (auto simp: step_iff failed_def split: ev_splits)

section \<open>Draining\<close>

lemma draining_step:
  "draining s \<Longrightarrow> step pol s ev = Some s' \<Longrightarrow> draining s' \<and> remaining s' < remaining s"
  by (cases ev)
    (auto simp: step_iff draining_def awaiting_def remaining_def split: ev_splits)

lemma draining_run:
  "draining s \<Longrightarrow> run pol s evs = Some s'
     \<Longrightarrow> draining s' \<and> remaining s' + length evs \<le> remaining s"
proof (induction evs arbitrary: s)
  case Nil
  then show ?case by simp
next
  case (Cons ev evs)
  from Cons.prems(2) obtain s1 where 1: "step pol s ev = Some s1"
    and 2: "run pol s1 evs = Some s'"
    by (auto split: option.splits)
  from draining_step [OF Cons.prems(1) 1] Cons.IH [OF _ 2] show ?case
    by auto
qed

lemma draining_progress:
  assumes "draining s" and "\<forall>r. main s \<noteq> M_Done r"
  shows "\<exists>ev s'. step pol s ev = Some s'"
proof (cases "main s")
  case M_Wait
  show ?thesis
  proof (cases "reader s")
    case R_Recv
    then have "step pol s (Recv (Inl io_EOF)) \<noteq> None"
      by (simp add: step.simps)
    then show ?thesis by blast
  next
    case (R_SendStart sr)
    then have "step pol s ReaderCtxDone \<noteq> None"
      using assms(1) by (simp add: step.simps draining_def)
    then show ?thesis by blast
  next
    case (R_SendConfirm c)
    then show ?thesis
      using assms(1) by (simp add: draining_def awaiting_def)
  next
    case (R_Done a)
    show ?thesis
    proof (cases "writer s")
      case W_Select
      then have "step pol s WriterCtxDone \<noteq> None"
        using assms(1) by (simp add: step.simps draining_def)
      then show ?thesis by blast
    next
      case (W_Send m)
      then show ?thesis
        using assms(1) by (simp add: draining_def awaiting_def)
    next
      case (W_Done b)
      show ?thesis
      proof (cases "invoker s")
        case I_Select
        then have "step pol s InvokerCtxDone \<noteq> None"
          using assms(1) by (simp add: step.simps draining_def)
        then show ?thesis by blast
      next
        case (I_Handler cl)
        then show ?thesis
          using assms(1) by (simp add: draining_def awaiting_def)
      next
        case (I_Done c)
        then have "step pol s Wait \<noteq> None"
          using M_Wait R_Done W_Done by (simp add: step.simps)
        then show ?thesis by blast
      qed
    qed
  qed
next
  case M_Check
  then have "step pol s CheckErr \<noteq> None"
    by (simp add: step.simps)
  then show ?thesis by blast
next
  case M_Return
  then have "step pol s Return \<noteq> None"
    by (simp add: step.simps)
  then show ?thesis by blast
next
  case (M_Done r)
  then show ?thesis using assms(2) by simp
qed

lemma idle_writer_left: "idle_writer w \<Longrightarrow> writer_left w \<le> 1"
  by (cases w) simp_all

lemma idle_invoker_left: "idle_invoker i \<Longrightarrow> invoker_left i \<le> 1"
  by (cases i) simp_all

lemma cancelled_step: "cancelled s \<Longrightarrow> step pol s ev = Some s' \<Longrightarrow> cancelled s'"
  by (cases ev) (auto simp: step_iff cancelled_def all_done_def split: ev_splits)

section \<open>Errors that come from outside\<close>

lemma free_step:
  "foreign x \<Longrightarrow> free_of x s \<Longrightarrow> supplied ev \<noteq> x \<Longrightarrow> step pol s ev = Some s'
     \<Longrightarrow> free_of x s'"
  by (cases ev)
    (auto simp: step_iff free_of_def foreign_def recv_failed_def send_failed_def
      status_Error_def split: ev_splits)

lemma free_run:
  "foreign x \<Longrightarrow> free_of x s \<Longrightarrow> \<forall>ev \<in> set evs. supplied ev \<noteq> x
     \<Longrightarrow> run pol s evs = Some s' \<Longrightarrow> free_of x s'"
proof (induction evs arbitrary: s)
  case Nil
  then show ?case by simp
next
  case (Cons ev evs)
  from Cons.prems(4) obtain s1 where 1: "step pol s ev = Some s1"
    and 2: "run pol s1 evs = Some s'"
    by (auto split: option.splits)
  have "free_of x s1"
    using free_step [OF Cons.prems(1,2) _ 1] Cons.prems(3) by simp
  then show ?case
    using Cons.IH [OF Cons.prems(1) _ _ 2] Cons.prems(3) by simp
qed

lemma foreign_errNotConnected: "foreign errNotConnected"
  by (simp add: foreign_def err_consts status_Error_def)

section \<open>The claims\<close>

text \<open>
  C1. After the group has drained without an error, a stream context whose error is
  \<open>context.Canceled\<close> must make \<open>Consume\<close> return the status error of code \<open>Canceled\<close>.
  The code misses this when the context ends between its two reads of \<open>sCtx.Err()\<close>:
  the client of the clean session cancels after the test of line 119 has read \<open>nil\<close>,
  and line 122 reads the error again and returns the bare \<open>context.Canceled\<close>, which
  is not the status error line 120 would have made of it. No task has reported an
  error, and the same happens under each policy of the group.
\<close>

theorem Consume_double_read:
  "run FirstReturn init (clean_session @ late_cancel)
     = Some (session FirstReturn (clean_session @ late_cancel)) \<and>
   all_done (session FirstReturn clean_session) \<and>
   g_err (session FirstReturn (clean_session @ late_cancel)) = None \<and>
   sctx_err (session FirstReturn (clean_session @ [Wait, CheckErr])) = None \<and>
   sctx_err (session FirstReturn (clean_session @ late_cancel)) = Some context_Canceled \<and>
   main (session FirstReturn (clean_session @ late_cancel)) = M_Done (Some context_Canceled) \<and>
   Some context_Canceled \<noteq> status_Error Canceled (Error context_Canceled) \<and>
   run ReturnCancels init (clean_session @ late_cancel)
     = Some (session ReturnCancels (clean_session @ late_cancel)) \<and>
   g_err (session ReturnCancels (clean_session @ late_cancel)) = None \<and>
   main (session ReturnCancels (clean_session @ late_cancel)) = M_Done (Some context_Canceled) \<and>
   run FirstError init (quiet_session @ late_cancel)
     = Some (session FirstError (quiet_session @ late_cancel)) \<and>
   g_err (session FirstError (quiet_session @ late_cancel)) = None \<and>
   sctx_err (session FirstError (quiet_session @ late_cancel)) = Some context_Canceled \<and>
   main (session FirstError (quiet_session @ late_cancel)) = M_Done (Some context_Canceled)"
  by code_simp

text \<open>
  C2. When a start request is handed to the invoker, \<open>HandleConsume\<close> is called with the
  context of the group, with a configuration whose topic, consumer and offset are the
  fields of that start request (the first request received), and with the channels
  \<open>forClient\<close> and \<open>confirmRequest\<close>. When the handler returns an error \<open>e\<close> while the
  reader and the writer are still running, \<open>ctx\<close> is done from then on and the group
  reports \<open>e\<close>, which is what \<open>Consume\<close> returns; a writer in its select, or a reader
  in one of its selects, can take no step but the one that returns \<open>nil\<close>.
\<close>

theorem handler_invocation:
  "(run pol init evs = Some s \<and> step pol s StartHandoff = Some t \<longrightarrow>
      (\<exists>sr. reader s = R_SendStart sr \<and>
         received s \<noteq> [] \<and> GetStartRequest (hd (received s)) = Some sr \<and>
         invoker t = I_Handler (call_of sr) \<and> calls t = [call_of sr] \<and>
         topic (arg_conf (call_of sr)) = GetTopic sr \<and>
         consumer (arg_conf (call_of sr)) = GetConsumer sr \<and>
         offset (arg_conf (call_of sr)) = GetInitialOffset sr \<and>
         arg_ctx (call_of sr) = GroupCtx \<and> arg_forClient (call_of sr) = ForClient \<and>
         arg_confirmRequest (call_of sr) = ConfirmRequest)) \<and>
   (run pol init hist = Some u \<and>
    reader_result (reader u) = None \<and> writer_result (writer u) = None \<and>
    step pol u (HandlerReturn (Some e)) = Some v \<and> run pol v rest = Some w \<longrightarrow>
      invoker w = I_Done (Some e) \<and> ctx_done w \<and> g_err w = Some e \<and>
      (\<forall>r. main w = M_Done r \<longrightarrow> r = Some e) \<and>
      (writer w = W_Select \<longrightarrow>
         (\<exists>x. step pol w WriterCtxDone = Some x \<and> writer x = W_Done None) \<and>
         (\<forall>ev x. step pol w ev = Some x \<longrightarrow> writer x = W_Select \<or> writer x = W_Done None)) \<and>
      (at_select (reader w) \<longrightarrow>
         (\<exists>x. step pol w ReaderCtxDone = Some x \<and> reader x = R_Done None) \<and>
         (\<forall>ev x. step pol w ev = Some x \<longrightarrow> reader x = reader w \<or> reader x = R_Done None)))"
  (is "(?A \<longrightarrow> ?B) \<and> (?C \<longrightarrow> ?D)")
proof (rule conjI; rule impI)
  assume a: ?A
  then obtain sr where sr: "reader s = R_SendStart sr" "invoker s = I_Select"
    "t = s\<lparr>reader := R_Recv, invoker := I_Handler (call_of sr),
       calls := calls s @ [call_of sr]\<rparr>"
    by (auto simp: step_iff)
  have "awaiting s \<or> active s"
    using a inv_reachable by (auto simp: inv_def)
  then have "awaiting s"
    using sr(1) by (auto simp: active_def)
  then show ?B
    using sr by (simp add: awaiting_def call_of_def conf_of_def)
next
  assume b: ?C
  then have i: "inv u \<and> inv v \<and> inv w"
    using inv_after by blast
  from b obtain cl where cl: "invoker u = I_Handler cl"
    "v = group_return pol (Some e) (u\<lparr>invoker := I_Done (Some e)\<rparr>)"
    by (auto simp: step_iff)
  have "\<not> g_once u"
    using i b cl(1) by (auto simp: inv_def unfired_def)
  then have f4: "failed e v"
    using cl by (simp add: failed_def)
  from b have b5: "run pol v rest = Some w"
    by simp
  have f: "failed e w"
    using failed_step f4 b5 by (rule run_invariant)
  have x: "exit_inv w"
    using i by (simp add: inv_def)
  have r: "\<forall>r. main w = M_Done r \<longrightarrow> r = Some e"
    using x f by (auto simp: exit_inv_def failed_def)
  have d: "invoker_result (invoker w) \<noteq> None \<or> invoker w = I_Select"
    using f by (simp add: failed_def)
  show ?D
    using f r writer_stops [OF _ _ d, of pol] reader_stops [OF _ _ d, of pol]
    by (simp add: failed_def)
qed

theorem handler_invocation_witness:
  "run FirstReturn init [Recv (Inr start_req)] = Some (session FirstReturn [Recv (Inr start_req)]) \<and>
   step FirstReturn (session FirstReturn [Recv (Inr start_req)]) StartHandoff
     = Some (session FirstReturn [Recv (Inr start_req), StartHandoff]) \<and>
   calls (session FirstReturn [Recv (Inr start_req), StartHandoff])
     = [\<lparr>arg_ctx = GroupCtx,
         arg_conf = \<lparr>consumer = ''c1'', topic = ''orders'', offset = 0\<rparr>,
         arg_forClient = ForClient, arg_confirmRequest = ConfirmRequest\<rparr>] \<and>
   run FirstReturn init [Recv (Inr start_req), StartHandoff]
     = Some (session FirstReturn [Recv (Inr start_req), StartHandoff]) \<and>
   reader_result (reader (session FirstReturn [Recv (Inr start_req), StartHandoff])) = None \<and>
   writer_result (writer (session FirstReturn [Recv (Inr start_req), StartHandoff])) = None \<and>
   step FirstReturn (session FirstReturn [Recv (Inr start_req), StartHandoff])
       (HandlerReturn (Some (Other ''broker unavailable'')))
     = Some (session FirstReturn [Recv (Inr start_req), StartHandoff,
         HandlerReturn (Some (Other ''broker unavailable''))]) \<and>
   run FirstReturn (session FirstReturn [Recv (Inr start_req), StartHandoff,
         HandlerReturn (Some (Other ''broker unavailable''))]) [Recv (Inr (confirm_req 1))]
     = Some (session FirstReturn [Recv (Inr start_req), StartHandoff,
         HandlerReturn (Some (Other ''broker unavailable'')), Recv (Inr (confirm_req 1))]) \<and>
   writer (session FirstReturn [Recv (Inr start_req), StartHandoff,
         HandlerReturn (Some (Other ''broker unavailable'')), Recv (Inr (confirm_req 1))])
     = W_Select \<and>
   at_select (reader (session FirstReturn [Recv (Inr start_req), StartHandoff,
         HandlerReturn (Some (Other ''broker unavailable'')), Recv (Inr (confirm_req 1))])) \<and>
   g_err (session FirstReturn [Recv (Inr start_req), StartHandoff,
         HandlerReturn (Some (Other ''broker unavailable'')), Recv (Inr (confirm_req 1))])
     = Some (Other ''broker unavailable'')"
  (is "?a1 \<and> ?a2 \<and> ?b \<and> ?c1 \<and> ?c2 \<and> ?c3 \<and> ?c4 \<and> ?c5 \<and> ?w \<and> ?r \<and> ?d")
proof -
  have a: "?a1 \<and> ?a2"
    by code_simp
  have c: "?c1 \<and> ?c2 \<and> ?c3 \<and> ?c4 \<and> ?c5"
    by code_simp
  have b: ?b and w: ?w and r: ?r
    by code_simp+
  note th = handler_invocation [where pol = FirstReturn and evs = "[Recv (Inr start_req)]"
      and s = "session FirstReturn [Recv (Inr start_req)]"
      and t = "session FirstReturn [Recv (Inr start_req), StartHandoff]"
      and hist = "[Recv (Inr start_req), StartHandoff]"
      and u = "session FirstReturn [Recv (Inr start_req), StartHandoff]"
      and e = "Other ''broker unavailable''"
      and v = "session FirstReturn [Recv (Inr start_req), StartHandoff,
         HandlerReturn (Some (Other ''broker unavailable''))]"
      and rest = "[Recv (Inr (confirm_req 1))]"
      and w = "session FirstReturn [Recv (Inr start_req), StartHandoff,
         HandlerReturn (Some (Other ''broker unavailable'')), Recv (Inr (confirm_req 1))]"]
  have ?d
    using th [THEN conjunct2, THEN mp, OF c] by simp
  then show ?thesis
    using a b c w r th [THEN conjunct1, THEN mp, OF a] by simp
qed

text \<open>
  C3. Once a request with a start request has been received, a further request with a
  start request makes the reader return the invalid-argument error
  \<open>consumption already started\<close>; after that no request is received, no confirmation
  is handed to the handler and no start request is handed to the invoker.
\<close>

theorem second_start_rejected:
  assumes "run pol init evs = Some s"
    and "m \<in> set (received s)" and "GetStartRequest m \<noteq> None"
    and "GetStartRequest msg \<noteq> None"
    and "step pol s (Recv (Inr msg)) = Some t"
    and "run pol t rest = Some u"
  shows "reader t = R_Done errStartedTwice \<and>
    errStartedTwice = Some (Status InvalidArgument ''consumption already started'') \<and>
    reader u = R_Done errStartedTwice \<and> received u = received t \<and>
    confirms u = confirms t \<and> calls u = calls t \<and>
    (\<forall>r. step pol u (Recv r) = None) \<and> step pol u StartHandoff = None \<and>
    step pol u ConfirmHandoff = None"
proof -
  have "started_inv s"
    using inv_reachable [OF assms(1)] by (simp add: inv_def)
  then have st: "started s"
    using assms(2,3) by (auto simp: started_inv_def)
  have r1: "reader t = R_Done errStartedTwice"
    using assms(4,5) st by (auto simp: step_iff)
  note fin = reader_finished_run [OF r1 assms(6)]
  show ?thesis
    using r1 fin by (simp add: err_consts finished_reader_disabled)
qed

theorem second_start_rejected_witness:
  "run FirstReturn init [Recv (Inr start_req), StartHandoff]
     = Some (session FirstReturn [Recv (Inr start_req), StartHandoff]) \<and>
   start_req \<in> set (received (session FirstReturn [Recv (Inr start_req), StartHandoff])) \<and>
   GetStartRequest start_req \<noteq> None \<and>
   step FirstReturn (session FirstReturn [Recv (Inr start_req), StartHandoff])
       (Recv (Inr start_req))
     = Some (session FirstReturn [Recv (Inr start_req), StartHandoff, Recv (Inr start_req)]) \<and>
   run FirstReturn
       (session FirstReturn [Recv (Inr start_req), StartHandoff, Recv (Inr start_req)])
       [WriterCtxDone]
     = Some (session FirstReturn
         [Recv (Inr start_req), StartHandoff, Recv (Inr start_req), WriterCtxDone]) \<and>
   reader (session FirstReturn
         [Recv (Inr start_req), StartHandoff, Recv (Inr start_req), WriterCtxDone])
     = R_Done (Some (Status InvalidArgument ''consumption already started''))"
  (is "?h1 \<and> ?h2 \<and> ?h3 \<and> ?h4 \<and> ?h5 \<and> ?c")
proof -
  have h1: ?h1 and h2: ?h2 and h3: ?h3 and h4: ?h4 and h5: ?h5
    by code_simp+
  show ?thesis
    using h1 h2 h3 h4 h5 second_start_rejected [OF h1 h2 h3 h3 h4 h5] by simp
qed

text \<open>
  C4. While no request with a start request has been received, a request that carries
  a confirmation and no start request makes the reader return the invalid-argument
  error \<open>invalid confirmation\<close>. From then on \<open>HandleConsume\<close> is never called, and the
  session ends: at most six more steps can happen, and as long as \<open>Consume\<close> has not
  returned a step can.
\<close>

theorem early_confirmation_rejected:
  assumes "run pol init evs = Some s"
    and "\<forall>m \<in> set (received s). GetStartRequest m = None"
    and "GetStartRequest msg = None" and "GetConfirmation msg = Some c"
    and "step pol s (Recv (Inr msg)) = Some t"
    and "run pol t rest = Some u"
  shows "reader t = R_Done errInvalidConfirm \<and>
    errInvalidConfirm = Some (Status InvalidArgument ''invalid confirmation'') \<and>
    calls u = [] \<and> (\<forall>cl. invoker u \<noteq> I_Handler cl) \<and>
    length rest \<le> 6 \<and>
    ((\<forall>r. main u \<noteq> M_Done r) \<longrightarrow> (\<exists>ev x. step pol u ev = Some x))"
proof -
  have i: "inv s"
    using inv_reachable [OF assms(1)] .
  then have ns: "\<not> started s"
    using assms(2) by (auto simp: inv_def started_inv_def)
  then have aw: "awaiting s"
    using i by (auto simp: inv_def active_def)
  have s1: "reader s = R_Recv"
    "t = group_return pol errInvalidConfirm
       (s\<lparr>reader := R_Done errInvalidConfirm, received := received s @ [msg]\<rparr>)"
    using assms(3,4,5) ns by (auto simp: step_iff)
  have r1: "reader t = R_Done errInvalidConfirm"
    using s1 by simp
  have "g_once s \<longrightarrow> ctx_done s"
    using i by (simp add: inv_def group_inv_def)
  then have d1: "draining t"
    using aw s1 by (auto simp: draining_def awaiting_def err_consts)
  have "main s = M_Wait"
    using i s1(1) by (cases "main s") (auto simp: inv_def exit_inv_def all_done_def)
  then have "remaining t \<le> 6"
    using aw s1 idle_writer_left [of "writer s"] idle_invoker_left [of "invoker s"]
    by (simp add: remaining_def awaiting_def)
  then have "length rest \<le> 6"
    using draining_run [OF d1 assms(6)] by simp
  moreover have d2: "draining u"
    using draining_run [OF d1 assms(6)] by simp
  ultimately show ?thesis
    using r1 awaiting_not_invoked [of u] draining_progress [OF d2, of pol]
    by (simp add: draining_def err_consts)
qed

theorem early_confirmation_rejected_witness:
  "run FirstReturn init [] = Some (session FirstReturn []) \<and>
   list_all (\<lambda>m. GetStartRequest m = None) (received (session FirstReturn [])) \<and>
   GetStartRequest (confirm_req 7) = None \<and> GetConfirmation (confirm_req 7) = Some 7 \<and>
   step FirstReturn (session FirstReturn []) (Recv (Inr (confirm_req 7)))
     = Some (session FirstReturn [Recv (Inr (confirm_req 7))]) \<and>
   run FirstReturn (session FirstReturn [Recv (Inr (confirm_req 7))])
       [WriterCtxDone, InvokerCtxDone, Wait]
     = Some (session FirstReturn
         [Recv (Inr (confirm_req 7)), WriterCtxDone, InvokerCtxDone, Wait]) \<and>
   main (session FirstReturn [Recv (Inr (confirm_req 7)), WriterCtxDone, InvokerCtxDone, Wait])
     = M_Done (Some (Status InvalidArgument ''invalid confirmation'')) \<and>
   calls (session FirstReturn [Recv (Inr (confirm_req 7)), WriterCtxDone, InvokerCtxDone, Wait])
     = []"
  (is "?h1 \<and> ?l \<and> ?h3 \<and> ?h4 \<and> ?h5 \<and> ?h6 \<and> ?m \<and> ?c")
proof -
  have h1: ?h1 and l: ?l and h3: ?h3 and h4: ?h4 and h5: ?h5 and h6: ?h6 and m: ?m
    by code_simp+
  have h2: "\<forall>m \<in> set (received (session FirstReturn [])). GetStartRequest m = None"
    using l by (simp add: list_all_iff)
  show ?thesis
    using h1 l h3 h4 h5 h6 m early_confirmation_rejected [OF h1 h2 h3 h4 h5 h6] by simp
qed

text \<open>
  C5. A request in which neither the start request nor the confirmation is set makes
  the reader return the invalid-argument error \<open>invalid consumer request - this is
  possibly a bug in your client library\<close>, whatever the flag \<open>started\<close> says; the request
  is recorded as received and the reader receives nothing after it.
\<close>

theorem unset_request_rejected:
  "reader s = R_Recv \<Longrightarrow> GetStartRequest msg = None \<Longrightarrow> GetConfirmation msg = None \<Longrightarrow>
     \<exists>t. step pol s (Recv (Inr msg)) = Some t \<and> reader t = R_Done errInvalidRequest \<and>
       errInvalidRequest = Some (Status InvalidArgument
         ''invalid consumer request - this is possibly a bug in your client library'') \<and>
       received t = received s @ [msg] \<and> (\<forall>r. step pol t (Recv r) = None)"
  by (simp add: step_iff err_consts finished_reader_disabled)

theorem unset_request_rejected_witness:
  "reader (session FirstReturn []) = R_Recv \<and> \<not> started (session FirstReturn []) \<and>
   reader (session FirstReturn [Recv (Inr start_req), StartHandoff]) = R_Recv \<and>
   started (session FirstReturn [Recv (Inr start_req), StartHandoff]) \<and>
   GetStartRequest empty_req = None \<and> GetConfirmation empty_req = None \<and>
   (\<exists>t. step FirstReturn (session FirstReturn []) (Recv (Inr empty_req)) = Some t \<and>
      reader t = R_Done errInvalidRequest) \<and>
   (\<exists>t. step FirstReturn (session FirstReturn [Recv (Inr start_req), StartHandoff])
        (Recv (Inr empty_req)) = Some t \<and>
      reader t = R_Done errInvalidRequest)"
  (is "?r1 \<and> ?s1 \<and> ?r2 \<and> ?s2 \<and> ?g1 \<and> ?g2 \<and> ?c1 \<and> ?c2")
proof -
  have r1: ?r1 and s1: ?s1 and r2: ?r2 and s2: ?s2 and g1: ?g1 and g2: ?g2
    by code_simp+
  show ?thesis
    using r1 s1 r2 s2 g1 g2 unset_request_rejected [OF r1 g1 g2, of FirstReturn]
      unset_request_rejected [OF r2 g1 g2, of FirstReturn]
    by blast
qed

text \<open>
  C6, as the code has it. End of stream on \<open>Recv\<close> makes the reader return \<open>nil\<close>. In a
  session where the start request was handed over, the reader, the handler and also
  the writer have returned \<open>nil\<close>, and the stream context is not done, \<open>Consume\<close>
  returns, and what it returns is \<open>nil\<close>.
\<close>

theorem clean_close_returns_nil:
  "(reader s = R_Recv \<longrightarrow>
      (\<exists>t. step pol s (Recv (Inl io_EOF)) = Some t \<and> reader t = R_Done None)) \<and>
   (run pol init evs = Some u \<and> calls u \<noteq> [] \<and> reader u = R_Done None \<and>
    invoker u = I_Done None \<and> writer u = W_Done None \<and> sctx_err u = None \<longrightarrow>
      (main u = M_Wait \<longrightarrow>
         (\<exists>v. run pol u [Wait, CheckErr, Return] = Some v \<and> main v = M_Done None)) \<and>
      (\<forall>r. main u = M_Done r \<longrightarrow> r = None))"
  (is "?A \<and> (?C \<longrightarrow> ?D)")
proof (rule conjI)
  show ?A
    by (simp add: step_iff recv_failed_def)
  show "?C \<longrightarrow> ?D"
  proof
    assume c: ?C
    then have i: "inv u"
      using inv_reachable by blast
    then have g: "g_err u = None"
      using c all_nil_no_error by blast
    have "\<forall>r. main u = M_Done r \<longrightarrow> r = None"
      using i c g by (auto simp: inv_def exit_inv_def)
    moreover have "\<exists>v. run pol u [Wait, CheckErr, Return] = Some v \<and> main v = M_Done None"
      if "main u = M_Wait"
      using that c g by (simp add: step.simps)
    ultimately show ?D by blast
  qed
qed

theorem clean_close_returns_nil_witness:
  "reader (session FirstReturn [Recv (Inr start_req), StartHandoff]) = R_Recv \<and>
   run FirstReturn init clean_session = Some (session FirstReturn clean_session) \<and>
   calls (session FirstReturn clean_session) \<noteq> [] \<and>
   reader (session FirstReturn clean_session) = R_Done None \<and>
   invoker (session FirstReturn clean_session) = I_Done None \<and>
   writer (session FirstReturn clean_session) = W_Done None \<and>
   sctx_err (session FirstReturn clean_session) = None \<and>
   main (session FirstReturn clean_session) = M_Wait \<and>
   (\<exists>t. step FirstReturn (session FirstReturn [Recv (Inr start_req), StartHandoff])
        (Recv (Inl io_EOF)) = Some t \<and> reader t = R_Done None) \<and>
   (\<exists>v. run FirstReturn (session FirstReturn clean_session) [Wait, CheckErr, Return] = Some v \<and>
      main v = M_Done None)"
  (is "?r \<and> ?h1 \<and> ?h2 \<and> ?h3 \<and> ?h4 \<and> ?h5 \<and> ?h6 \<and> ?m \<and> ?c1 \<and> ?c2")
proof -
  have r: ?r and m: ?m
    by code_simp+
  have h: "?h1 \<and> ?h2 \<and> ?h3 \<and> ?h4 \<and> ?h5 \<and> ?h6"
    by code_simp
  note th = clean_close_returns_nil [where pol = FirstReturn
      and s = "session FirstReturn [Recv (Inr start_req), StartHandoff]"
      and evs = clean_session and u = "session FirstReturn clean_session"]
  show ?thesis
    using r m h th [THEN conjunct1, THEN mp, OF r] th [THEN conjunct2, THEN mp, OF h]
    by blast
qed

text \<open>
  C6, as stated, fails: the handshake succeeds, the one \<open>Send\<close> is refused with a
  status error, the handler returns \<open>nil\<close>, the reader returns \<open>nil\<close> on end of stream,
  the stream context is not done, and \<open>Consume\<close> returns the error of \<open>Send\<close>, under
  each policy of the group.
\<close>

theorem clean_close_counterexample:
  "run FirstReturn init send_failure_session = Some (session FirstReturn send_failure_session) \<and>
   calls (session FirstReturn send_failure_session) \<noteq> [] \<and>
   reader (session FirstReturn send_failure_session) = R_Done None \<and>
   invoker (session FirstReturn send_failure_session) = I_Done None \<and>
   sctx_err (session FirstReturn send_failure_session) = None \<and>
   main (session FirstReturn send_failure_session)
     = M_Done (Some (Status ResourceExhausted ''trying to send message larger than max'')) \<and>
   run FirstError init send_failure_session = Some (session FirstError send_failure_session) \<and>
   reader (session FirstError send_failure_session) = R_Done None \<and>
   invoker (session FirstError send_failure_session) = I_Done None \<and>
   sctx_err (session FirstError send_failure_session) = None \<and>
   main (session FirstError send_failure_session)
     = M_Done (Some (Status ResourceExhausted ''trying to send message larger than max'')) \<and>
   run ReturnCancels init send_failure_session
     = Some (session ReturnCancels send_failure_session) \<and>
   reader (session ReturnCancels send_failure_session) = R_Done None \<and>
   invoker (session ReturnCancels send_failure_session) = I_Done None \<and>
   sctx_err (session ReturnCancels send_failure_session) = None \<and>
   main (session ReturnCancels send_failure_session)
     = M_Done (Some (Status ResourceExhausted ''trying to send message larger than max''))"
  by code_simp

text \<open>
  C7, as the code has it. Let the context be cancelled (the stream context has ended
  with \<open>context.Canceled\<close> and \<open>ctx.Done()\<close> is closed) while no start request has been
  handed to the invoker. From then on \<open>HandleConsume\<close> is never called; a task in a
  select can take no step but the one that returns \<open>nil\<close>; at most seven more steps can
  happen, and as long as \<open>Consume\<close> has not returned a step can; and when the reader
  too has returned \<open>nil\<close>, what \<open>Consume\<close> returns is the status error of code
  \<open>Canceled\<close>.
\<close>

theorem cancelled_while_awaiting_start:
  assumes "run pol init evs = Some s"
    and "sctx_err s = Some context_Canceled" and "ctx_done s" and "invoker s = I_Select"
    and "run pol s rest = Some u"
  shows "calls u = [] \<and> (\<forall>cl. invoker u \<noteq> I_Handler cl) \<and>
    (invoker u = I_Select \<longrightarrow>
       (\<exists>x. step pol u InvokerCtxDone = Some x \<and> invoker x = I_Done None) \<and>
       (\<forall>ev x. step pol u ev = Some x \<longrightarrow> invoker x = I_Select \<or> invoker x = I_Done None)) \<and>
    (writer u = W_Select \<longrightarrow>
       (\<exists>x. step pol u WriterCtxDone = Some x \<and> writer x = W_Done None) \<and>
       (\<forall>ev x. step pol u ev = Some x \<longrightarrow> writer x = W_Select \<or> writer x = W_Done None)) \<and>
    (at_select (reader u) \<longrightarrow>
       (\<exists>x. step pol u ReaderCtxDone = Some x \<and> reader x = R_Done None) \<and>
       (\<forall>ev x. step pol u ev = Some x \<longrightarrow> reader x = reader u \<or> reader x = R_Done None)) \<and>
    (\<forall>r. main u = M_Done r \<longrightarrow> reader u = R_Done None \<longrightarrow>
       r = Some (Status Canceled ''context canceled'')) \<and>
    length rest \<le> 7 \<and>
    ((\<forall>r. main u \<noteq> M_Done r) \<longrightarrow> (\<exists>ev x. step pol u ev = Some x))"
proof -
  have i: "inv s"
    using inv_reachable [OF assms(1)] .
  have i': "inv u"
    using inv_run [OF i assms(5)] .
  have aw: "awaiting s"
    using i assms(4) by (auto simp: inv_def active_def)
  then have d: "draining s"
    using assms(3) by (simp add: draining_def)
  have m: "main s = M_Wait"
    using i assms(4) by (cases "main s") (auto simp: inv_def exit_inv_def all_done_def)
  then have c: "cancelled s"
    using assms(2) by (simp add: cancelled_def)
  have c': "cancelled u"
    using cancelled_step c assms(5) by (rule run_invariant)
  have d': "draining u" and len: "remaining u + length rest \<le> remaining s"
    using draining_run [OF d assms(5)] by simp_all
  have "reader_left (reader s) \<le> 2"
    by (cases "reader s") simp_all
  then have "remaining s \<le> 7"
    using aw m assms(2,4) idle_writer_left [of "writer s"]
    by (simp add: remaining_def awaiting_def)
  then have l: "length rest \<le> 7"
    using len by simp
  have idle: "idle_writer (writer u)" "idle_invoker (invoker u)" "ctx_done u"
    using d' by (simp_all add: draining_def awaiting_def)
  have sel: "invoker_result (invoker u) \<noteq> None \<or> invoker u = I_Select"
    using idle(2) by (cases "invoker u") simp_all
  have res: "r = Some (Status Canceled ''context canceled'')"
    if "main u = M_Done r" and "reader u = R_Done None" for r
  proof -
    have ad: "all_done u"
      using c' that(1) by (simp add: cancelled_def)
    then have "writer u = W_Done None" "invoker u = I_Done None"
      using idle by (cases "writer u"; cases "invoker u"; simp add: all_done_def)+
    then have "g_err u = None"
      using i' that(2) all_nil_no_error by blast
    then show ?thesis
      using c' that(1) by (simp add: cancelled_def)
  qed
  show ?thesis
    using awaiting_not_invoked [of u] d' l res
      invoker_stops [OF idle(3)] writer_stops [OF idle(3) _ sel]
      reader_stops [OF idle(3) _ sel] draining_progress [OF d']
    by (simp add: draining_def)
qed

theorem cancelled_while_awaiting_start_witness:
  "run FirstReturn init cancel_first = Some (session FirstReturn cancel_first) \<and>
   sctx_err (session FirstReturn cancel_first) = Some context_Canceled \<and>
   ctx_done (session FirstReturn cancel_first) \<and>
   invoker (session FirstReturn cancel_first) = I_Select \<and>
   run FirstReturn (session FirstReturn cancel_first)
       [Recv (Inl (Status Canceled ''context canceled'')), WriterCtxDone, InvokerCtxDone,
        Wait, CheckErr]
     = Some (session FirstReturn (cancel_first @
         [Recv (Inl (Status Canceled ''context canceled'')), WriterCtxDone, InvokerCtxDone,
          Wait, CheckErr])) \<and>
   reader (session FirstReturn (cancel_first @
         [Recv (Inl (Status Canceled ''context canceled'')), WriterCtxDone, InvokerCtxDone,
          Wait, CheckErr])) = R_Done None \<and>
   main (session FirstReturn (cancel_first @
         [Recv (Inl (Status Canceled ''context canceled'')), WriterCtxDone, InvokerCtxDone,
          Wait, CheckErr])) = M_Done (Some (Status Canceled ''context canceled'')) \<and>
   calls (session FirstReturn (cancel_first @
         [Recv (Inl (Status Canceled ''context canceled'')), WriterCtxDone, InvokerCtxDone,
          Wait, CheckErr])) = []"
  (is "?h1 \<and> ?h2 \<and> ?h3 \<and> ?h4 \<and> ?h5 \<and> ?r \<and> ?m \<and> ?c")
proof -
  have h1: ?h1 and h2: ?h2 and h3: ?h3 and h4: ?h4 and h5: ?h5 and r: ?r and m: ?m
    by code_simp+
  show ?thesis
    using h1 h2 h3 h4 h5 r m cancelled_while_awaiting_start [OF h1 h2 h3 h4 h5] by simp
qed

text \<open>
  C7, as stated, fails: the stream context ends with \<open>context.Canceled\<close> and \<open>ctx\<close> is
  done before any start request, the handler is never called, and still the reader
  finds a request with neither part set and returns first, so that \<open>Consume\<close> returns
  that invalid-argument error and not one of code \<open>Canceled\<close>, under each policy.
\<close>

theorem cancelled_while_awaiting_start_counterexample:
  "sctx_err (session FirstReturn cancel_first) = Some context_Canceled \<and>
   ctx_done (session FirstReturn cancel_first) \<and>
   invoker (session FirstReturn cancel_first) = I_Select \<and>
   run FirstReturn (session FirstReturn cancel_first) violation_after_cancel
     = Some (session FirstReturn (cancel_first @ violation_after_cancel)) \<and>
   calls (session FirstReturn (cancel_first @ violation_after_cancel)) = [] \<and>
   main (session FirstReturn (cancel_first @ violation_after_cancel))
     = M_Done (Some (Status InvalidArgument
         ''invalid consumer request - this is possibly a bug in your client library'')) \<and>
   run FirstError (session FirstError cancel_first) violation_after_cancel
     = Some (session FirstError (cancel_first @ violation_after_cancel)) \<and>
   main (session FirstError (cancel_first @ violation_after_cancel))
     = M_Done (Some (Status InvalidArgument
         ''invalid consumer request - this is possibly a bug in your client library'')) \<and>
   run ReturnCancels (session ReturnCancels cancel_first) violation_after_cancel
     = Some (session ReturnCancels (cancel_first @ violation_after_cancel)) \<and>
   main (session ReturnCancels (cancel_first @ violation_after_cancel))
     = M_Done (Some (Status InvalidArgument
         ''invalid consumer request - this is possibly a bug in your client library''))"
  by code_simp

text \<open>
  C8. In every reachable state, whatever the interleaving with requests read and
  confirmations handed to the handler, the messages the writer has taken from
  \<open>forClient\<close> are the messages the handler handed over, in the order of the hand-overs;
  they are, in that order and once each, the arguments of the calls of \<open>stream.Send\<close>,
  followed by the message that is inside \<open>Send\<close> if there is one. What reached the
  stream is a prefix of what was handed over, short of it by at most the one message
  that is in flight or whose \<open>Send\<close> failed, and equal to it while the writer waits in
  its select.
\<close>

theorem forwarded_in_order:
  assumes "run pol init evs = Some s"
  shows "produced s = handed evs \<and>
    handed evs = map fst (sends s) @ in_flight (writer s) \<and>
    prefix (on_stream s) (handed evs) \<and>
    length (handed evs) \<le> length (on_stream s) + 1 \<and>
    (writer s = W_Select \<longrightarrow> on_stream s = handed evs)"
proof -
  have p: "produced s = handed evs"
    using produced_run [OF assms] by (simp add: init_def)
  have f: "forwarded s"
    using inv_reachable [OF assms] by (simp add: inv_def)
  show ?thesis
    using on_stream_forwarded [OF f] f p by (simp add: forwarded_def)
qed

theorem forwarded_in_order_witness:
  "run FirstReturn init three_messages = Some (session FirstReturn three_messages) \<and>
   handed three_messages = [1, 2, 3] \<and>
   confirms (session FirstReturn three_messages) = [1, 2] \<and>
   writer (session FirstReturn three_messages) = W_Select \<and>
   on_stream (session FirstReturn three_messages) = [1, 2, 3]"
  (is "?h \<and> ?m \<and> ?c \<and> ?w \<and> ?o")
proof -
  have h: ?h and m: ?m and c: ?c and w: ?w
    by code_simp+
  show ?thesis
    using h m c w forwarded_in_order [OF h] by simp
qed

text \<open>
  C9. An error of \<open>Recv\<close> or of \<open>Send\<close> whose text ends in \<open>context canceled\<close> makes the
  reader, respectively the writer, return \<open>nil\<close>. Only the text decides: the state is
  arbitrary, so this holds as well while \<open>ctx\<close> and the stream context are live.
\<close>

theorem cancel_suffix_is_clean:
  "HasSuffix (Error e) ''context canceled'' \<Longrightarrow>
     (reader s = R_Recv \<longrightarrow>
        (\<exists>t. step pol s (Recv (Inl e)) = Some t \<and> reader t = R_Done None)) \<and>
     (writer s = W_Send m \<longrightarrow>
        (\<exists>t. step pol s (Send (Some e)) = Some t \<and> writer t = W_Done None))"
  by (simp add: step_iff recv_failed_def send_failed_def)

theorem cancel_suffix_is_clean_witness:
  "HasSuffix (Error (Other ''upstream proxy: context canceled'')) ''context canceled'' \<and>
   Other ''upstream proxy: context canceled'' \<noteq> io_EOF \<and>
   \<not> ctx_done (session FirstReturn [Recv (Inr start_req), StartHandoff, ForClientHandoff 1]) \<and>
   sctx_err (session FirstReturn [Recv (Inr start_req), StartHandoff, ForClientHandoff 1])
     = None \<and>
   reader (session FirstReturn [Recv (Inr start_req), StartHandoff, ForClientHandoff 1])
     = R_Recv \<and>
   writer (session FirstReturn [Recv (Inr start_req), StartHandoff, ForClientHandoff 1])
     = W_Send 1 \<and>
   (\<exists>t. step FirstReturn
        (session FirstReturn [Recv (Inr start_req), StartHandoff, ForClientHandoff 1])
        (Recv (Inl (Other ''upstream proxy: context canceled''))) = Some t \<and>
      reader t = R_Done None) \<and>
   (\<exists>t. step FirstReturn
        (session FirstReturn [Recv (Inr start_req), StartHandoff, ForClientHandoff 1])
        (Send (Some (Other ''upstream proxy: context canceled''))) = Some t \<and>
      writer t = W_Done None)"
  (is "?h \<and> ?n \<and> ?l1 \<and> ?l2 \<and> ?r \<and> ?w \<and> ?c1 \<and> ?c2")
proof -
  have h: ?h and n: ?n and l1: ?l1 and l2: ?l2 and r: ?r and w: ?w
    by code_simp+
  show ?thesis
    using h n l1 l2 r w
      cancel_suffix_is_clean [OF h, where pol = FirstReturn and m = 1
        and s = "session FirstReturn [Recv (Inr start_req), StartHandoff, ForClientHandoff 1]"]
    by blast
qed

text \<open>
  C10, as the code has it. \<open>Consume\<close> returns the value \<open>errNotConnected\<close> only in a
  session where the handler, \<open>Recv\<close>, \<open>Send\<close> or the stream context supplied that
  value: no step of the bridge itself makes it.
\<close>

theorem errNotConnected_only_from_outside:
  assumes "run pol init evs = Some s" and "\<forall>ev \<in> set evs. supplied ev \<noteq> errNotConnected"
    and "main s = M_Done r"
  shows "r \<noteq> errNotConnected"
proof -
  have "free_of errNotConnected (init :: ('a, 'b, 'c) state)"
    by (simp add: free_of_def init_def err_consts)
  then have "free_of errNotConnected s"
    using free_run [OF foreign_errNotConnected _ assms(2) assms(1)] by simp
  then show ?thesis
    using assms(3) by (auto simp: free_of_def)
qed

theorem errNotConnected_only_from_outside_witness:
  "run FirstReturn init (cancel_first @ violation_after_cancel)
     = Some (session FirstReturn (cancel_first @ violation_after_cancel)) \<and>
   list_all (\<lambda>ev. supplied ev \<noteq> errNotConnected) (cancel_first @ violation_after_cancel) \<and>
   main (session FirstReturn (cancel_first @ violation_after_cancel))
     = M_Done errInvalidRequest \<and>
   errInvalidRequest \<noteq> errNotConnected"
  (is "?h1 \<and> ?l \<and> ?h3 \<and> ?c")
proof -
  have h1: ?h1 and l: ?l and h3: ?h3
    by code_simp+
  have h2: "\<forall>ev \<in> set (cancel_first @ violation_after_cancel). supplied ev \<noteq> errNotConnected"
    using l by (simp add: list_all_iff)
  show ?thesis
    using h1 l h3 errNotConnected_only_from_outside [OF h1 h2 h3] by simp
qed

text \<open>
  C10, as stated, fails: a handler that returns \<open>errNotConnected\<close> while the reader and
  the writer are running makes \<open>Consume\<close> return that very value, under each policy.
\<close>

theorem errNotConnected_counterexample:
  "run FirstReturn init not_connected_session = Some (session FirstReturn not_connected_session) \<and>
   main (session FirstReturn not_connected_session) = M_Done errNotConnected \<and>
   run FirstError init not_connected_session = Some (session FirstError not_connected_session) \<and>
   main (session FirstError not_connected_session) = M_Done errNotConnected \<and>
   run ReturnCancels init not_connected_session
     = Some (session ReturnCancels not_connected_session) \<and>
   main (session ReturnCancels not_connected_session) = M_Done errNotConnected"
  by code_simp

end
